theory Spec2Isabelle
  imports Main
begin

section \<open>The platform: strings, dates, time zones\<close>

text \<open>
  The repository holds several variants of one JavaScript program. The one modelled is
  the latest, \<open>src/unnamed/part_001\<close>, which has \<open>cleanDescription\<close> and the
  run-once mode. What it computes itself is translated function by function below; what
  it asks of the JavaScript runtime (the \<open>Date\<close> object, the \<open>Intl\<close> formatter,
  string methods) is modelled here after ECMA-262 and ECMA-402. Strings are byte strings
  holding the UTF-8 encoding of the JavaScript string; an instant is the time value of a
  \<open>Date\<close>, an integer number of milliseconds since 1970-01-01T00:00Z. The clock of
  the process is far inside the range of valid time values, so \<open>TimeClip\<close> is the
  identity on every instant met here. Lines written by \<open>console.log\<close> change nothing
  that is modelled and are left out.
\<close>

subsection \<open>Truthiness of optional string fields\<close>

text \<open>
  A field of a Calendar API event is a string or is absent. JavaScript treats both
  an absent field and the empty string as falsy.
\<close>

fun truthy :: "string option \<Rightarrow> bool" where
  "truthy None = False"
| "truthy (Some s) = (s \<noteq> [])"

text \<open>\<open>a || b\<close> on two such fields.\<close>

definition js_or :: "string option \<Rightarrow> string option \<Rightarrow> string option" where
  "js_or a b = (if truthy a then a else b)"

subsection \<open>The proleptic Gregorian calendar\<close>

definition msPerDay :: int where
  "msPerDay = 86400000"

text \<open>\<open>Day(t)\<close> and \<open>TimeWithinDay(t)\<close> of ECMA-262.\<close>

definition Day :: "int \<Rightarrow> int" where
  "Day t = t div msPerDay"

definition TimeWithinDay :: "int \<Rightarrow> int" where
  "TimeWithinDay t = t mod msPerDay"

definition MakeDate :: "int \<Rightarrow> int \<Rightarrow> int" where
  "MakeDate dy tm = dy * msPerDay + tm"

text \<open>
  The civil date (year, month 1..12, day of month) of a day number counted from
  1970-01-01. The day is shifted to count from 0000-03-01 and then split into
  400-year cycles, centuries, 4-year cycles and years, each year running from March.
\<close>

definition civil_from_days :: "int \<Rightarrow> int \<times> int \<times> int" where
  "civil_from_days z =
     (let z0 = z + 719468;
          n400 = z0 div 146097;
          r = z0 mod 146097;
          n100 = min 3 (r div 36524);
          r1 = r - n100 * 36524;
          n4 = r1 div 1461;
          r2 = r1 mod 1461;
          n1 = min 3 (r2 div 365);
          doy = r2 - n1 * 365;
          y = 400 * n400 + 100 * n100 + 4 * n4 + n1;
          mp = (5 * doy + 2) div 153;
          d = doy - (153 * mp + 2) div 5 + 1;
          m = (if mp < 10 then mp + 3 else mp - 9)
      in (if m \<le> 2 then y + 1 else y, m, d))"

text \<open>The day number of a civil date; the day of month may lie outside the month.\<close>

definition days_from_civil :: "int \<Rightarrow> int \<Rightarrow> int \<Rightarrow> int" where
  "days_from_civil y m d =
     (let y' = (if m \<le> 2 then y - 1 else y);
          mp = (if m > 2 then m - 3 else m + 9);
          era = y' div 400;
          yoe = y' mod 400;
          doy = (153 * mp + 2) div 5 + d - 1;
          doe = yoe * 365 + yoe div 4 - yoe div 100 + doy
      in era * 146097 + doe - 719468)"

definition YearFromTime :: "int \<Rightarrow> int" where
  "YearFromTime t = fst (civil_from_days (Day t))"

text \<open>\<open>MonthFromTime\<close> counts months from 0.\<close>

definition MonthFromTime :: "int \<Rightarrow> int" where
  "MonthFromTime t = fst (snd (civil_from_days (Day t))) - 1"

definition DateFromTime :: "int \<Rightarrow> int" where
  "DateFromTime t = snd (snd (civil_from_days (Day t)))"

text \<open>
  \<open>MakeDay(year, month, date)\<close> for a month in 0..11: the day number of the first
  of that month, plus \<open>date - 1\<close>.
\<close>

definition MakeDay :: "int \<Rightarrow> int \<Rightarrow> int \<Rightarrow> int" where
  "MakeDay y m dt = days_from_civil y (m + 1) 1 + dt - 1"

subsection \<open>Decimal digits\<close>

definition digit :: "nat \<Rightarrow> char" where
  "digit n = ''0123456789'' ! n"

fun digits :: "nat \<Rightarrow> string" where
  "digits n = (if n < 10 then [digit n] else digits (n div 10) @ [digit (n mod 10)])"

declare digits.simps [simp del]

definition pad2 :: "int \<Rightarrow> string" where
  "pad2 n = [digit (nat n div 10 mod 10), digit (nat n mod 10)]"

text \<open>
  The parts \<open>year\<close>, \<open>month\<close> and \<open>day\<close> that \<open>Intl.DateTimeFormat("en-CA",
  {year: "numeric", month: "2-digit", day: "2-digit"})\<close> gives, joined as
  \<open>`${y}-${m}-${d}`\<close>. With no era shown, a year before 1 is printed as its year
  of the era.
\<close>

definition ymd_string :: "int \<times> int \<times> int \<Rightarrow> string" where
  "ymd_string c =
     (case c of (y, m, d) \<Rightarrow>
        digits (nat (if y \<le> 0 then 1 - y else y)) @ ''-'' @ pad2 m @ ''-'' @ pad2 d)"

subsection \<open>Time zones\<close>

text \<open>
  A time zone is the implementation-defined \<open>LocalTZA(t, isUTC)\<close> of ECMA-262:
  \<open>utc_offset z t\<close> is the offset (in ms) of local time from UTC at the instant
  \<open>t\<close>, \<open>local_offset z t\<close> is the offset with which the local time value \<open>t\<close>
  is read back as an instant.
\<close>

record zone =
  utc_offset :: "int \<Rightarrow> int"
  local_offset :: "int \<Rightarrow> int"

definition LocalTime :: "zone \<Rightarrow> int \<Rightarrow> int" where
  "LocalTime z t = t + utc_offset z t"

definition UTC :: "zone \<Rightarrow> int \<Rightarrow> int" where
  "UTC z t = t - local_offset z t"

definition Etc_UTC :: zone where
  "Etc_UTC = \<lparr> utc_offset = (\<lambda>t. 0), local_offset = (\<lambda>t. 0) \<rparr>"

text \<open>
  America/Los_Angeles as it is during 2026: Pacific Daylight Time (UTC-7) from
  2026-03-08T10:00Z until 2026-11-01T09:00Z, Pacific Standard Time (UTC-8) otherwise.
  A local time that is skipped or repeated is read with the offset before the
  transition, as ECMA-262 requires.
\<close>

definition America_Los_Angeles :: zone where
  "America_Los_Angeles =
     \<lparr> utc_offset = (\<lambda>t. if 1772964000000 \<le> t \<and> t < 1793523600000
                           then - 25200000 else - 28800000),
       local_offset = (\<lambda>t. if 1772938800000 \<le> t \<and> t < 1793498400000
                             then - 25200000 else - 28800000) \<rparr>"

text \<open>Every real zone stays within a day of UTC.\<close>

definition zone_ok :: "zone \<Rightarrow> bool" where
  "zone_ok z \<longleftrightarrow> (\<forall>t. \<bar>utc_offset z t\<bar> \<le> msPerDay \<and> \<bar>local_offset z t\<bar> \<le> msPerDay)"


subsection \<open>\<open>Date.prototype.getDate\<close> and \<open>setDate\<close>\<close>

text \<open>
  Both work on the local time of the host: \<open>setDate\<close> rebuilds the local time value
  from the year and month it has and the given day of month, and reads it back as an
  instant.
\<close>

definition getDate :: "zone \<Rightarrow> int \<Rightarrow> int" where
  "getDate loc t = DateFromTime (LocalTime loc t)"

definition setDate :: "zone \<Rightarrow> int \<Rightarrow> int \<Rightarrow> int" where
  "setDate loc t dt =
     (let lt = LocalTime loc t
      in UTC loc (MakeDate (MakeDay (YearFromTime lt) (MonthFromTime lt) dt) (TimeWithinDay lt)))"

subsection \<open>\<open>String.prototype.trim\<close>\<close>

text \<open>
  The UTF-8 encodings of the code points that \<open>trim\<close> removes: the WhiteSpace and
  LineTerminator productions of ECMA-262 (tab, LF, VT, FF, CR, space, U+00A0, U+1680,
  U+2000 to U+200A, U+2028, U+2029, U+202F, U+205F, U+3000, U+FEFF).
\<close>

definition white_space :: "string list" where
  "white_space =
     [[CHR 0x09], [CHR 0x0A], [CHR 0x0B], [CHR 0x0C], [CHR 0x0D], [CHR 0x20],
      [CHR 0xC2, CHR 0xA0], [CHR 0xE1, CHR 0x9A, CHR 0x80],
      [CHR 0xE2, CHR 0x80, CHR 0x80], [CHR 0xE2, CHR 0x80, CHR 0x81],
      [CHR 0xE2, CHR 0x80, CHR 0x82], [CHR 0xE2, CHR 0x80, CHR 0x83],
      [CHR 0xE2, CHR 0x80, CHR 0x84], [CHR 0xE2, CHR 0x80, CHR 0x85],
      [CHR 0xE2, CHR 0x80, CHR 0x86], [CHR 0xE2, CHR 0x80, CHR 0x87],
      [CHR 0xE2, CHR 0x80, CHR 0x88], [CHR 0xE2, CHR 0x80, CHR 0x89],
      [CHR 0xE2, CHR 0x80, CHR 0x8A], [CHR 0xE2, CHR 0x80, CHR 0xA8],
      [CHR 0xE2, CHR 0x80, CHR 0xA9], [CHR 0xE2, CHR 0x80, CHR 0xAF],
      [CHR 0xE2, CHR 0x81, CHR 0x9F], [CHR 0xE3, CHR 0x80, CHR 0x80],
      [CHR 0xEF, CHR 0xBB, CHR 0xBF]]"

text \<open>Remove from the front of \<open>s\<close> every leading occurrence of one of the words \<open>ws\<close>.\<close>

function strip_start :: "string list \<Rightarrow> string \<Rightarrow> string" where
  "strip_start ws s =
     (case find (\<lambda>w. w \<noteq> [] \<and> take (length w) s = w) ws of
        None \<Rightarrow> s
      | Some w \<Rightarrow> strip_start ws (drop (length w) s))"
  by pat_completeness auto
termination
proof (relation "measure (\<lambda>(ws, s). length s)")
  show "wf (measure (\<lambda>(ws, s). length s))" by simp
next
  fix ws :: "string list" and s w :: string
  assume "find (\<lambda>w. w \<noteq> [] \<and> take (length w) s = w) ws = Some w"
  then have w: "w \<noteq> []" "take (length w) s = w" by (auto simp: find_Some_iff)
  from w(2) have "length w \<le> length s" by (metis length_take min.cobounded1)
  with w(1) show "((ws, drop (length w) s), (ws, s)) \<in> measure (\<lambda>(ws, s). length s)"
    by (cases w) simp_all
qed

declare strip_start.simps [simp del]

definition trim :: "string \<Rightarrow> string" where
  "trim s = rev (strip_start (map rev white_space) (rev (strip_start white_space s)))"

subsection \<open>\<open>desc.replace(/<[^>]*>/g, "")\<close>\<close>

text \<open>
  The pattern matches a \<open><\<close>, then the longest run of characters other than \<open>>\<close>,
  then a \<open>>\<close>: from a given \<open><\<close> the only possible match ends at the first \<open>>\<close>
  after it. The global replace scans from the left; where the pattern does not match at
  a position, the character there is kept and the scan moves on by one.
\<close>

function strip_tags :: "string \<Rightarrow> string" where
  "strip_tags [] = []"
| "strip_tags (c # cs) =
     (if c = CHR ''<'' then
        (case dropWhile (\<lambda>x. x \<noteq> CHR ''>'') cs of
           [] \<Rightarrow> c # strip_tags cs
         | g # rest \<Rightarrow> strip_tags rest)
      else c # strip_tags cs)"
  by pat_completeness auto
termination
proof (relation "measure length")
  show "wf (measure length)" by simp
next
  fix c :: char and cs :: string
  show "(cs, c # cs) \<in> measure length" by simp
next
  fix c g :: char and cs rest :: string
  assume "dropWhile (\<lambda>x. x \<noteq> CHR ''>'') cs = g # rest"
  then have "length (g # rest) \<le> length cs" by (metis length_dropWhile_le)
  then show "(rest, c # cs) \<in> measure length" by simp
next
  fix c :: char and cs :: string
  show "(cs, c # cs) \<in> measure length" by simp
qed

text \<open>A string that the pattern \<open><[^>]*>\<close> matches as a whole.\<close>

definition is_tag :: "string \<Rightarrow> bool" where
  "is_tag t \<longleftrightarrow>
     (case t of
        [] \<Rightarrow> False
      | c # r \<Rightarrow> c = CHR ''<'' \<and> r \<noteq> [] \<and> last r = CHR ''>'' \<and> CHR ''>'' \<notin> set (butlast r))"

text \<open>Some substring of the string matches the pattern.\<close>

fun has_tag :: "string \<Rightarrow> bool" where
  "has_tag [] = False"
| "has_tag (c # cs) = ((c = CHR ''<'' \<and> CHR ''>'' \<in> set cs) \<or> has_tag cs)"


section \<open>The reminder bot\<close>

subsection \<open>Events, the platform, the state of the process\<close>

text \<open>An event of the Calendar API; every field may be absent.\<close>

record event_start =
  date :: "string option"
  dateTime :: "string option"

record event =
  event_id :: "string option"
  start :: "event_start option"
  summary :: "string option"
  description :: "string option"
  htmlLink :: "string option"

text \<open>
  What the process is run on: the zone that \<open>TIMEZONE\<close> names, the zone of the host
  (in which \<open>Date\<close> does its local-time arithmetic), how \<open>new Date(string)\<close>
  parses (\<open>None\<close> is Invalid Date), the \<open>Intl.DateTimeFormat("en-US", {timeZone,
  dateStyle: "medium", timeStyle: "short"})\<close> formatter, and whether the \<open>k\<close>-th call
  of \<open>slack.chat.postMessage\<close> made by the process resolves.
\<close>

record platform =
  TIMEZONE :: zone
  localTZ :: zone
  parseDate :: "string \<Rightarrow> int option"
  formatStart :: "zone \<Rightarrow> int \<Rightarrow> string"
  postMessage_ok :: "nat \<Rightarrow> bool"

datatype error = FetchError | RangeError | TypeError | DeliveryError

text \<open>How a statement ends: normally, or by throwing.\<close>

datatype completion = Normal | Throw error

text \<open>
  A call of \<open>slack.chat.postMessage\<close>: the text sent and whether the call resolved,
  with the event and label it was rendered from.
\<close>

record post =
  p_event :: event
  p_label :: string
  p_text :: string
  p_ok :: bool

text \<open>
  The two module-level sets, the calls of \<open>postMessage\<close> made so far, and the errors
  written by \<open>console.error\<close> in the catch clause.
\<close>

record state =
  remindedDay :: "string set"
  remindedWeek :: "string set"
  posts :: "post list"
  logged :: "error list"

definition initial :: state where
  "initial = \<lparr> remindedDay = {}, remindedWeek = {}, posts = [], logged = [] \<rparr>"

text \<open>Run \<open>f\<close> after a statement that completed normally; a throw skips it.\<close>

definition and_then :: "state \<times> completion \<Rightarrow> (state \<Rightarrow> state \<times> completion) \<Rightarrow> state \<times> completion" where
  "and_then r f = (case r of (s, Normal) \<Rightarrow> f s | (s, Throw e) \<Rightarrow> (s, Throw e))"

subsection \<open>\<open>ymdInTZ\<close>, \<open>addDays\<close>\<close>

text \<open>\<open>ymdInTZ\<close> of a valid date; an Invalid Date is handled where the date is made.\<close>

definition ymdInTZ :: "zone \<Rightarrow> int \<Rightarrow> string" where
  "ymdInTZ timeZone t = ymd_string (civil_from_days (Day (LocalTime timeZone t)))"

definition addDays :: "zone \<Rightarrow> int \<Rightarrow> int \<Rightarrow> int" where
  "addDays loc t days = setDate loc t (getDate loc t + days)"

subsection \<open>\<open>cleanDescription\<close>\<close>

definition cleanDescription :: "string option \<Rightarrow> string option" where
  "cleanDescription desc =
     (if \<not> truthy desc then None
      else let stripped = trim (strip_tags (the desc))
           in if stripped \<noteq> [] then Some stripped else None)"

subsection \<open>\<open>sendSlackReminder\<close>\<close>

definition isAllDay :: "event \<Rightarrow> bool" where
  "isAllDay event =
     (case start event of
        None \<Rightarrow> False
      | Some st \<Rightarrow> truthy (date st) \<and> \<not> truthy (dateTime st))"

text \<open>\<open>new Date(x)\<close> for a field that may be absent.\<close>

definition new_Date :: "platform \<Rightarrow> string option \<Rightarrow> int option" where
  "new_Date P x = (case x of None \<Rightarrow> None | Some s \<Rightarrow> parseDate P s)"

definition prettyStart :: "platform \<Rightarrow> event \<Rightarrow> error + string" where
  "prettyStart P event =
     (case start event of
        None \<Rightarrow> Inl TypeError
      | Some st \<Rightarrow>
          if isAllDay event then Inr (the (date st))
          else (case new_Date P (dateTime st) of
                  None \<Rightarrow> Inl RangeError
                | Some t \<Rightarrow> Inr (formatStart P (TIMEZONE P) t)))"

text \<open>
  The emoji of the message in UTF-8 (U+23F0 alarm clock, U+1F4C5 calendar, U+1F4DD
  memo, U+1F517 link) and the line feed.
\<close>

definition alarm_clock :: string where
  "alarm_clock = [CHR 0xE2, CHR 0x8F, CHR 0xB0]"

definition calendar_emoji :: string where
  "calendar_emoji = [CHR 0xF0, CHR 0x9F, CHR 0x93, CHR 0x85]"

definition memo_emoji :: string where
  "memo_emoji = [CHR 0xF0, CHR 0x9F, CHR 0x93, CHR 0x9D]"

definition link_emoji :: string where
  "link_emoji = [CHR 0xF0, CHR 0x9F, CHR 0x94, CHR 0x97]"

definition LF :: string where
  "LF = [CHR 0x0A]"

definition message_text :: "string \<Rightarrow> event \<Rightarrow> string \<Rightarrow> string" where
  "message_text whenLabel event pretty =
     (let description = cleanDescription (description event);
          msg = alarm_clock @ '' *Upcoming event in '' @ whenLabel @ ''*'' @ LF;
          msg = msg @ ''*'' @ (if truthy (summary event) then the (summary event)
                               else ''Untitled event'') @ ''*'' @ LF;
          msg = msg @ calendar_emoji @ '' '' @ pretty @ LF;
          msg = (if truthy description
                 then msg @ LF @ memo_emoji @ '' '' @ the description @ LF else msg);
          msg = (if truthy (htmlLink event)
                 then msg @ link_emoji @ '' <'' @ the (htmlLink event)
                        @ ''|Open in Google Calendar>''
                 else msg)
      in msg)"

definition sendSlackReminder :: "platform \<Rightarrow> event \<Rightarrow> string \<Rightarrow> state \<Rightarrow> state \<times> completion" where
  "sendSlackReminder P event whenLabel s =
     (case prettyStart P event of
        Inl e \<Rightarrow> (s, Throw e)
      | Inr pretty \<Rightarrow>
          (let msg = message_text whenLabel event pretty;
               ok = postMessage_ok P (length (posts s));
               s' = s\<lparr>posts := posts s @
                      [\<lparr>p_event = event, p_label = whenLabel, p_text = msg, p_ok = ok\<rparr>]\<rparr>
           in if ok then (s', Normal) else (s', Throw DeliveryError)))"

subsection \<open>\<open>checkCalendarAndNotify\<close>\<close>

text \<open>The three dates computed at the start of a cycle.\<close>

record window =
  todayYMD :: string
  tomorrowYMD :: string
  weekYMD :: string

definition window_at :: "platform \<Rightarrow> int \<Rightarrow> window" where
  "window_at P now =
     \<lparr> todayYMD = ymdInTZ (TIMEZONE P) now,
       tomorrowYMD = ymdInTZ (TIMEZONE P) (addDays (localTZ P) now 1),
       weekYMD = ymdInTZ (TIMEZONE P) (addDays (localTZ P) now 7) \<rparr>"

text \<open>
  The date an event is compared by: the \<open>date\<close> field as it is for an all-day event,
  the date in \<open>TIMEZONE\<close> of the parsed \<open>dateTime\<close> otherwise; formatting an Invalid
  Date throws a RangeError.
\<close>

definition eventYMD :: "platform \<Rightarrow> event_start \<Rightarrow> error + string" where
  "eventYMD P st =
     (if truthy (date st) \<and> \<not> truthy (dateTime st) then Inr (the (date st))
      else (case new_Date P (dateTime st) of
              None \<Rightarrow> Inl RangeError
            | Some t \<Rightarrow> Inr (ymdInTZ (TIMEZONE P) t)))"

text \<open>The two guarded sends of the loop body.\<close>

definition remind_day :: "platform \<Rightarrow> window \<Rightarrow> event \<Rightarrow> string \<Rightarrow> state \<Rightarrow> state \<times> completion" where
  "remind_day P w event ymd s =
     (if ymd = tomorrowYMD w \<and> the (event_id event) \<notin> remindedDay s
      then and_then (sendSlackReminder P event ''1 day'' s)
             (\<lambda>s'. (s'\<lparr>remindedDay := insert (the (event_id event)) (remindedDay s')\<rparr>, Normal))
      else (s, Normal))"

definition remind_week :: "platform \<Rightarrow> window \<Rightarrow> event \<Rightarrow> string \<Rightarrow> state \<Rightarrow> state \<times> completion" where
  "remind_week P w event ymd s =
     (if ymd = weekYMD w \<and> the (event_id event) \<notin> remindedWeek s
      then and_then (sendSlackReminder P event ''1 week'' s)
             (\<lambda>s'. (s'\<lparr>remindedWeek := insert (the (event_id event)) (remindedWeek s')\<rparr>, Normal))
      else (s, Normal))"

text \<open>The body of \<open>for (const event of events)\<close>; \<open>continue\<close> completes normally.\<close>

definition process_event :: "platform \<Rightarrow> window \<Rightarrow> event \<Rightarrow> state \<Rightarrow> state \<times> completion" where
  "process_event P w event s =
     (if \<not> truthy (event_id event) \<or> start event = None then (s, Normal)
      else let startStr = js_or (dateTime (the (start event))) (date (the (start event)))
           in if \<not> truthy startStr then (s, Normal)
              else (case eventYMD P (the (start event)) of
                      Inl e \<Rightarrow> (s, Throw e)
                    | Inr ymd \<Rightarrow>
                        and_then (remind_day P w event ymd s) (remind_week P w event ymd)))"

fun for_events :: "platform \<Rightarrow> window \<Rightarrow> event list \<Rightarrow> state \<Rightarrow> state \<times> completion" where
  "for_events P w [] s = (s, Normal)"
| "for_events P w (event # events) s =
     and_then (process_event P w event s) (for_events P w events)"

text \<open>
  The \<open>try\<close> block. \<open>fetched\<close> is what \<open>await getUpcomingEvents(...)\<close> gives: the
  items of the response, or the error it rejects with. \<open>now\<close> is \<open>new Date()\<close>.
\<close>

definition try_block :: "platform \<Rightarrow> error + event list \<Rightarrow> int \<Rightarrow> state \<Rightarrow> state \<times> completion" where
  "try_block P fetched now s =
     (case fetched of
        Inl err \<Rightarrow> (s, Throw err)
      | Inr events \<Rightarrow> for_events P (window_at P now) events s)"

definition checkCalendarAndNotify :: "platform \<Rightarrow> error + event list \<Rightarrow> int \<Rightarrow> state \<Rightarrow> state \<times> completion" where
  "checkCalendarAndNotify P fetched now s =
     (case try_block P fetched now s of
        (s', Throw err) \<Rightarrow> (s'\<lparr>logged := logged s' @ [err]\<rparr>, Normal)
      | (s', Normal) \<Rightarrow> (s', Normal))"

text \<open>
  The cycles of one process when they take their turns: each cycle, given what it
  fetches and its clock, has returned before the next one begins. This is what the
  run-once mode does, and what the cron mode does as long as a cycle ends within the
  cron interval. The cron callback does not await \<open>checkCalendarAndNotify()\<close>, so a
  cycle can also begin while an earlier one is suspended at an \<open>await\<close>; such
  overlapping cycles are not described by this function (see \<open>overlapping_sends\<close>
  below).
\<close>

fun run_in_turn :: "platform \<Rightarrow> ((error + event list) \<times> int) list \<Rightarrow> state \<Rightarrow> state" where
  "run_in_turn P [] s = s"
| "run_in_turn P (c # cs) s = run_in_turn P cs (fst (checkCalendarAndNotify P (fst c) (snd c) s))"

subsection \<open>Thresholds and requests\<close>

datatype threshold = OneDay | OneWeek

fun label :: "threshold \<Rightarrow> string" where
  "label OneDay = ''1 day''"
| "label OneWeek = ''1 week''"

fun reminded :: "threshold \<Rightarrow> state \<Rightarrow> string set" where
  "reminded OneDay s = remindedDay s"
| "reminded OneWeek s = remindedWeek s"

text \<open>The requests made for an event id and threshold, and those of them that were delivered.\<close>

definition requests_for :: "string \<Rightarrow> threshold \<Rightarrow> post list \<Rightarrow> post list" where
  "requests_for i th ps =
     filter (\<lambda>p. event_id (p_event p) = Some i \<and> p_label p = label th) ps"

definition delivered_for :: "string \<Rightarrow> threshold \<Rightarrow> post list \<Rightarrow> post list" where
  "delivered_for i th ps = filter p_ok (requests_for i th ps)"

subsection \<open>The two thresholds, uniformly\<close>

text \<open>The window date of a threshold, the insertion into its set, and its guarded send.\<close>

fun window_date :: "threshold \<Rightarrow> window \<Rightarrow> string" where
  "window_date OneDay w = tomorrowYMD w"
| "window_date OneWeek w = weekYMD w"

fun mark :: "threshold \<Rightarrow> string \<Rightarrow> state \<Rightarrow> state" where
  "mark OneDay i s = s\<lparr>remindedDay := insert i (remindedDay s)\<rparr>"
| "mark OneWeek i s = s\<lparr>remindedWeek := insert i (remindedWeek s)\<rparr>"

fun remind :: "threshold \<Rightarrow> platform \<Rightarrow> window \<Rightarrow> event \<Rightarrow> string \<Rightarrow> state \<Rightarrow> state \<times> completion" where
  "remind OneDay = remind_day"
| "remind OneWeek = remind_week"

declare remind.simps [simp del]

subsection \<open>Two cycles that overlap\<close>

text \<open>
  In \<open>if (... && !remindedDay.has(event.id)) { await sendSlackReminder(event, "1 day");
  remindedDay.add(event.id); }\<close> the cycle is suspended, inside \<open>sendSlackReminder\<close>,
  at \<open>await slack.chat.postMessage(...)\<close>, between the lookup and the insertion.
  When two cycles overlap and both have fetched the event \<open>e\<close>, which has the
  window date of the threshold, the event loop can run them in this order: the first
  cycle passes its guard and calls \<open>postMessage\<close>; while it waits, the second cycle
  passes the same guard, the id not being in the set yet, and calls \<open>postMessage\<close>
  too; then each resumes and inserts the id if its call resolved.
\<close>

definition overlapping_sends :: "platform \<Rightarrow> event \<Rightarrow> threshold \<Rightarrow> state \<Rightarrow> state" where
  "overlapping_sends P e th s =
     (if the (event_id e) \<notin> reminded th s then
        (let first = sendSlackReminder P e (label th) s
         in if the (event_id e) \<notin> reminded th (fst first) then
              (let second = sendSlackReminder P e (label th) (fst first);
                   s1 = (if snd first = Normal then mark th (the (event_id e)) (fst second)
                         else fst second)
               in if snd second = Normal then mark th (the (event_id e)) s1 else s1)
            else (if snd first = Normal then mark th (the (event_id e)) (fst first)
                  else fst first))
      else s)"

subsection \<open>The earlier variant of the loop body\<close>

text \<open>
  \<open>src/index.js\<close> holds an earlier variant of the program. Its loop body makes a
  \<open>Date\<close> of the start string of every event, all-day or not, and formats that:
  \<open>const eventStart = new Date(startStr); const eventYMD = ymdInTZ(eventStart);\<close>
\<close>

definition eventYMD_index_js :: "platform \<Rightarrow> event_start \<Rightarrow> error + string" where
  "eventYMD_index_js P st =
     (case new_Date P (js_or (dateTime st) (date st)) of
        None \<Rightarrow> Inl RangeError
      | Some t \<Rightarrow> Inr (ymdInTZ (TIMEZONE P) t))"

subsection \<open>Malformed events\<close>

text \<open>
  An event without an id, without a start, or whose start has neither a date nor a
  dateTime (an empty string counts as absent, as for JavaScript's \<open>!\<close>).
\<close>

definition malformed :: "event \<Rightarrow> bool" where
  "malformed e \<longleftrightarrow>
     (case start e of
        None \<Rightarrow> True
      | Some st \<Rightarrow> \<not> truthy (event_id e) \<or> (\<not> truthy (date st) \<and> \<not> truthy (dateTime st)))"

subsection \<open>Sample inputs\<close>

text \<open>
  A host in UTC with \<open>TIMEZONE\<close> America/Los_Angeles, on which every call of the
  Slack API succeeds. Two strings parse: a date-time with its offset, and a date alone,
  which ECMA-262 reads as midnight UTC. The formatter gives what \<open>Intl\<close> gives for
  \<open>en-US\<close> with \<open>dateStyle: "medium"\<close> and \<open>timeStyle: "short"\<close>, such as
  \<open>Jun 10, 2026, 3:30 PM\<close>, with an ordinary space before the day period.
\<close>

definition month_abbr :: "int \<Rightarrow> string" where
  "month_abbr m =
     [''Jan'', ''Feb'', ''Mar'', ''Apr'', ''May'', ''Jun'',
      ''Jul'', ''Aug'', ''Sep'', ''Oct'', ''Nov'', ''Dec''] ! nat (m - 1)"

definition sample_format :: "zone \<Rightarrow> int \<Rightarrow> string" where
  "sample_format z t =
     (let lt = LocalTime z t;
          c = civil_from_days (Day lt);
          minutes = TimeWithinDay lt div 60000;
          h = minutes div 60
      in month_abbr (fst (snd c)) @ '' '' @ digits (nat (snd (snd c))) @ '', ''
         @ digits (nat (fst c)) @ '', ''
         @ digits (nat (if h mod 12 = 0 then 12 else h mod 12)) @ '':'' @ pad2 (minutes mod 60)
         @ '' '' @ (if h < 12 then ''AM'' else ''PM''))"

definition sample_parse :: "string \<Rightarrow> int option" where
  "sample_parse s =
     (if s = ''2026-06-10T15:30:00-07:00'' then Some 1781130600000
      else if s = ''2026-06-10'' then Some 1781049600000
      else None)"

definition sample_platform :: platform where
  "sample_platform =
     \<lparr> TIMEZONE = America_Los_Angeles, localTZ = Etc_UTC, parseDate = sample_parse,
       formatStart = sample_format, postMessage_ok = (\<lambda>k. True) \<rparr>"

text \<open>The same host when the first call of the Slack API fails and the later ones succeed.\<close>

definition flaky_platform :: platform where
  "flaky_platform = sample_platform\<lparr>postMessage_ok := (\<lambda>k. k \<noteq> 0)\<rparr>"

definition standup :: event where
  "standup =
     \<lparr> event_id = Some ''a'',
       start = Some \<lparr> date = Some ''2026-06-10'', dateTime = None \<rparr>,
       summary = Some ''Standup'',
       description = Some '' <p>Bring <b>notes</b></p>  '',
       htmlLink = Some ''https://cal/a'' \<rparr>"

definition review :: event where
  "review =
     \<lparr> event_id = Some ''b'',
       start = Some \<lparr> date = None, dateTime = Some ''2026-06-10T15:30:00-07:00'' \<rparr>,
       summary = None, description = None, htmlLink = None \<rparr>"

definition no_start :: event where
  "no_start =
     \<lparr> event_id = Some ''c'', start = None, summary = Some ''Broken'',
       description = None, htmlLink = None \<rparr>"

text \<open>2026-06-09T19:00Z and 2026-06-03T19:00Z, noon in Los Angeles.\<close>

definition june_9_noon :: int where
  "june_9_noon = 1781031600000"

definition june_3_noon :: int where
  "june_3_noon = 1780513200000"

text \<open>
  2026-11-01T07:30Z, half past midnight in Los Angeles on the day summer time ends,
  and 2026-10-26T07:30Z, half past midnight in Los Angeles six days before.
\<close>

definition november_1_night :: int where
  "november_1_night = 1793518200000"

definition october_26_night :: int where
  "october_26_night = 1792999800000"

section \<open>Properties of the platform model\<close>

subsection \<open>The calendar\<close>

lemma cycle_bounds:
  fixes r :: int
  assumes r: "0 \<le> r" "r < 146097"
    and n100_def: "n100 = min 3 (r div 36524)"
    and r1_def: "r1 = r - n100 * 36524"
    and n4_def: "n4 = r1 div 1461"
    and r2_def: "r2 = r1 mod 1461"
    and n1_def: "n1 = min 3 (r2 div 365)"
    and doy_def: "doy = r2 - n1 * 365"
  shows "0 \<le> n100 \<and> n100 \<le> 3 \<and> 0 \<le> n4 \<and> n4 \<le> 24 \<and> 0 \<le> n1 \<and> n1 \<le> 3 \<and> 0 \<le> doy \<and> doy \<le> 365
    \<and> r = 36524 * n100 + 1461 * n4 + 365 * n1 + doy"
proof -
  have a: "0 \<le> n100" "n100 \<le> 3" using r unfolding n100_def by auto
  have b: "0 \<le> r1" "r1 \<le> 36524" using r unfolding r1_def n100_def by (auto simp: min_def)
  have c: "0 \<le> n4" "n4 \<le> 24" using b unfolding n4_def by auto
  have d: "0 \<le> r2" "r2 < 1461" unfolding r2_def by auto
  have e: "0 \<le> n1" "n1 \<le> 3" using d unfolding n1_def by auto
  have f: "0 \<le> doy" "doy \<le> 365" using d unfolding doy_def n1_def by (auto simp: min_def)
  have g: "r1 = 1461 * n4 + r2" unfolding n4_def r2_def by simp
  have "r = 36524 * n100 + 1461 * n4 + 365 * n1 + doy"
    using g unfolding doy_def r1_def by simp
  with a c e f show ?thesis by simp
qed

lemma month_bounds:
  fixes doy :: int
  assumes "0 \<le> doy" "doy \<le> 365"
    and mp_def: "mp = (5 * doy + 2) div 153"
    and d_def: "d = doy - (153 * mp + 2) div 5 + 1"
  shows "0 \<le> mp \<and> mp \<le> 11 \<and> 1 \<le> d \<and> d \<le> 31"
  using assms(1,2) unfolding d_def mp_def by auto

lemma year_recover:
  fixes n400 n100 n4 n1 :: int
  assumes "0 \<le> n100" "n100 \<le> 3" "0 \<le> n4" "n4 \<le> 24" "0 \<le> n1" "n1 \<le> 3"
    and y_def: "y = 400 * n400 + 100 * n100 + 4 * n4 + n1"
  shows "y div 400 = n400"
    and "(y mod 400) * 365 + (y mod 400) div 4 - (y mod 400) div 100 = 36524 * n100 + 1461 * n4 + 365 * n1"
proof -
  let ?yoe = "100 * n100 + 4 * n4 + n1"
  have yoe: "0 \<le> ?yoe" "?yoe < 400" using assms(1-6) by auto
  have y: "y = n400 * 400 + ?yoe" by (simp add: y_def)
  show "y div 400 = n400" using yoe unfolding y by (simp add: div_pos_pos_trivial)
  have m: "y mod 400 = ?yoe" using yoe unfolding y by (simp add: mod_pos_pos_trivial)
  have q4: "?yoe div 4 = 25 * n100 + n4" using assms(1-6) by auto
  have q100: "?yoe div 100 = n100" using assms(1-6) by auto
  show "(y mod 400) * 365 + (y mod 400) div 4 - (y mod 400) div 100 = 36524 * n100 + 1461 * n4 + 365 * n1"
    unfolding m q4 q100 by simp
qed

lemma civil_from_days_decomp:
  fixes z :: int
  defines "z0 \<equiv> z + 719468"
  defines "r \<equiv> z0 mod 146097"
  defines "n100 \<equiv> min 3 (r div 36524)"
  defines "r1 \<equiv> r - n100 * 36524"
  defines "n4 \<equiv> r1 div 1461"
  defines "r2 \<equiv> r1 mod 1461"
  defines "n1 \<equiv> min 3 (r2 div 365)"
  defines "doy \<equiv> r2 - n1 * 365"
  defines "mp \<equiv> (5 * doy + 2) div 153"
  defines "y0 \<equiv> 400 * (z0 div 146097) + 100 * n100 + 4 * n4 + n1"
  defines "m \<equiv> (if mp < 10 then mp + 3 else mp - 9)"
  shows "civil_from_days z = (if m \<le> 2 then y0 + 1 else y0, m, doy - (153 * mp + 2) div 5 + 1)"
  unfolding civil_from_days_def Let_def m_def y0_def mp_def doy_def n1_def r2_def n4_def r1_def n100_def r_def z0_def
  by (rule refl)

lemma civil_from_days_props:
  assumes c: "civil_from_days z = (y, m, d)"
  shows "days_from_civil y m d = z" and "1 \<le> m" and "m \<le> 12" and "1 \<le> d" and "d \<le> 31"
    and "400 * ((z + 719468) div 146097) \<le> y"
proof -
  define z0 where "z0 = z + 719468"
  define r where "r = z0 mod 146097"
  define n100 where "n100 = min 3 (r div 36524)"
  define r1 where "r1 = r - n100 * 36524"
  define n4 where "n4 = r1 div 1461"
  define r2 where "r2 = r1 mod 1461"
  define n1 where "n1 = min 3 (r2 div 365)"
  define doy where "doy = r2 - n1 * 365"
  define mp where "mp = (5 * doy + 2) div 153"
  define y0 where "y0 = 400 * (z0 div 146097) + 100 * n100 + 4 * n4 + n1"
  define m0 where "m0 = (if mp < 10 then mp + 3 else mp - 9)"
  define d0 where "d0 = doy - (153 * mp + 2) div 5 + 1"
  have "civil_from_days z = (if m0 \<le> 2 then y0 + 1 else y0, m0, d0)"
    unfolding m0_def y0_def mp_def doy_def n1_def r2_def n4_def r1_def n100_def r_def z0_def d0_def
    by (rule civil_from_days_decomp)
  with c have y: "y = (if m0 \<le> 2 then y0 + 1 else y0)" and m: "m = m0" and d: "d = d0"
    by auto
  have r: "0 \<le> r" "r < 146097" unfolding r_def by simp_all
  note cb = cycle_bounds [OF r n100_def r1_def n4_def r2_def n1_def doy_def]
  have mb: "0 \<le> mp \<and> mp \<le> 11 \<and> 1 \<le> d0 \<and> d0 \<le> 31"
    using cb by (intro month_bounds [OF _ _ mp_def d0_def]) simp_all
  have yr: "y0 div 400 = z0 div 146097"
    "(y0 mod 400) * 365 + (y0 mod 400) div 4 - (y0 mod 400) div 100 = 36524 * n100 + 1461 * n4 + 365 * n1"
    using cb by (auto intro!: year_recover [OF _ _ _ _ _ _ y0_def])
  show "1 \<le> m" "m \<le> 12" using mb unfolding m m0_def by auto
  show "1 \<le> d" "d \<le> 31" using mb unfolding d by auto
  show "400 * ((z + 719468) div 146097) \<le> y"
    using cb unfolding y y0_def z0_def by auto
  have y': "(if m \<le> 2 then y - 1 else y) = y0" unfolding y m by simp
  have mp': "(if m > 2 then m - 3 else m + 9) = mp" using mb unfolding m m0_def by auto
  have "days_from_civil y m d = (y0 div 400) * 146097 + ((y0 mod 400) * 365 + (y0 mod 400) div 4 - (y0 mod 400) div 100 + ((153 * mp + 2) div 5 + d - 1)) - 719468"
    unfolding days_from_civil_def Let_def y' mp' by simp
  also have "\<dots> = (z0 div 146097) * 146097 + (36524 * n100 + 1461 * n4 + 365 * n1 + doy) - 719468"
    using yr unfolding d d0_def by simp
  also have "\<dots> = (z0 div 146097) * 146097 + r - 719468" using cb by simp
  also have "\<dots> = z" unfolding r_def z0_def by simp
  finally show "days_from_civil y m d = z" .
qed

lemma civil_from_days_inj: "civil_from_days a = civil_from_days b \<Longrightarrow> a = b"
proof -
  assume e: "civil_from_days a = civil_from_days b"
  obtain y m d where c: "civil_from_days a = (y, m, d)" by (cases "civil_from_days a")
  from civil_from_days_props(1) [OF c] civil_from_days_props(1) [OF c [unfolded e]]
  show "a = b" by simp
qed


lemma days_from_civil_shift: "days_from_civil y m d' = days_from_civil y m d + (d' - d)"
  by (simp add: days_from_civil_def Let_def)

lemma addDays_eq: "addDays loc t n = UTC loc (LocalTime loc t + n * msPerDay)"
proof -
  define lt where "lt = LocalTime loc t"
  obtain y m d where c: "civil_from_days (Day lt) = (y, m, d)" by (cases "civil_from_days (Day lt)")
  have "MakeDay (YearFromTime lt) (MonthFromTime lt) (DateFromTime lt + n) = days_from_civil y m 1 + (d + n) - 1"
    by (simp add: MakeDay_def YearFromTime_def MonthFromTime_def DateFromTime_def c)
  also have "\<dots> = Day lt + n"
    using civil_from_days_props(1) [OF c] days_from_civil_shift [of y m 1 d] by simp
  finally have md: "MakeDay (YearFromTime lt) (MonthFromTime lt) (DateFromTime lt + n) = Day lt + n" .
  have "MakeDate (Day lt + n) (TimeWithinDay lt) = lt + n * msPerDay"
    by (simp add: MakeDate_def Day_def TimeWithinDay_def algebra_simps)
  with md show ?thesis
    by (simp add: addDays_def setDate_def getDate_def Let_def lt_def)
qed

lemma digit_inj: "a < 10 \<Longrightarrow> b < 10 \<Longrightarrow> digit a = digit b \<Longrightarrow> a = b"
proof -
  assume a: "a < 10" and b: "b < 10" and e: "digit a = digit b"
  have d: "distinct ''0123456789''" by simp
  have "a < length ''0123456789''" "b < length ''0123456789''" using a b by simp_all
  with d e show "a = b" unfolding digit_def by (simp only: nth_eq_iff_index_eq)
qed

lemma digits_not_Nil: "digits n \<noteq> []"
  by (subst digits.simps) simp

lemma digits_inj: "digits a = digits b \<Longrightarrow> a = b"
proof (induction a arbitrary: b rule: digits.induct)
  case (1 n)
  show ?case
  proof (cases "n < 10")
    case True
    note n = this
    show ?thesis
    proof (cases "b < 10")
      case True
      with n 1(2) show ?thesis
        by (simp add: digits.simps [of n] digits.simps [of b] digit_inj)
    next
      case False
      with n 1(2) digits_not_Nil [of "b div 10"] show ?thesis
        by (simp add: digits.simps [of n] digits.simps [of b])
    qed
  next
    case False
    note n = this
    show ?thesis
    proof (cases "b < 10")
      case True
      with n 1(2) digits_not_Nil [of "n div 10"] show ?thesis
        by (simp add: digits.simps [of n] digits.simps [of b])
    next
      case False
      with n 1(2) have e: "digits (n div 10) = digits (b div 10)" "digit (n mod 10) = digit (b mod 10)"
        by (simp_all add: digits.simps [of n] digits.simps [of b])
      from 1(1) [OF n e(1)] have q: "n div 10 = b div 10" .
      from e(2) have r: "n mod 10 = b mod 10" by (intro digit_inj) simp_all
      from q r show ?thesis by (metis div_mult_mod_eq)
    qed
  qed
qed

lemma pad2_inj: "0 \<le> a \<Longrightarrow> a < 100 \<Longrightarrow> 0 \<le> b \<Longrightarrow> b < 100 \<Longrightarrow> pad2 a = pad2 b \<Longrightarrow> a = b"
proof -
  assume a: "0 \<le> a" "a < 100" and b: "0 \<le> b" "b < 100" and e: "pad2 a = pad2 b"
  from e have "digit (nat a div 10 mod 10) = digit (nat b div 10 mod 10)" "digit (nat a mod 10) = digit (nat b mod 10)"
    by (simp_all add: pad2_def)
  then have "nat a div 10 mod 10 = nat b div 10 mod 10" "nat a mod 10 = nat b mod 10"
    by (auto intro: digit_inj)
  then have q: "nat a div 10 mod 10 = nat b div 10 mod 10" and r: "nat a mod 10 = nat b mod 10"
    by simp_all
  have "nat a div 10 < 10" "nat b div 10 < 10" using a b by simp_all
  with q have "nat a div 10 = nat b div 10" by simp
  with r have "nat a = nat b" by (metis div_mult_mod_eq)
  with a b show "a = b" by simp
qed

lemma ymd_string_inj:
  assumes e: "ymd_string (civil_from_days a) = ymd_string (civil_from_days b)"
    and a: "0 < fst (civil_from_days a)" and b: "0 < fst (civil_from_days b)"
  shows "a = b"
proof -
  obtain y m d where ca: "civil_from_days a = (y, m, d)" by (cases "civil_from_days a")
  obtain y' m' d' where cb: "civil_from_days b = (y', m', d')" by (cases "civil_from_days b")
  note pa = civil_from_days_props [OF ca] and pb = civil_from_days_props [OF cb]
  from a b ca cb have y: "0 < y" "0 < y'" by simp_all
  from e y have "digits (nat y) @ (''-'' @ pad2 m @ ''-'' @ pad2 d) = digits (nat y') @ (''-'' @ pad2 m' @ ''-'' @ pad2 d')"
    by (simp add: ymd_string_def ca cb)
  moreover have "length (''-'' @ pad2 m @ ''-'' @ pad2 d) = length (''-'' @ pad2 m' @ ''-'' @ pad2 d')"
    by (simp add: pad2_def)
  ultimately have q: "digits (nat y) = digits (nat y') \<and> ''-'' @ pad2 m @ ''-'' @ pad2 d = ''-'' @ pad2 m' @ ''-'' @ pad2 d'"
    by (metis append_eq_append_conv)
  then have r: "''-'' @ pad2 m @ ''-'' @ pad2 d = ''-'' @ pad2 m' @ ''-'' @ pad2 d'" by simp
  from q have "nat y = nat y'" by (intro digits_inj) simp
  with y have yy: "y = y'" by simp
  from r have "pad2 m = pad2 m'" "pad2 d = pad2 d'" by (simp_all add: pad2_def)
  with pa(2-5) pb(2-5) have "m = m'" "d = d'" by (auto intro: pad2_inj)
  with yy pa(1) pb(1) show "a = b" by simp
qed

lemma year_positive: "- 500000 \<le> z \<Longrightarrow> 0 < fst (civil_from_days z)"
proof -
  assume z: "- 500000 \<le> z"
  obtain y m d where c: "civil_from_days z = (y, m, d)" by (cases "civil_from_days z")
  from z have "1 \<le> (z + 719468) div 146097" by simp
  with civil_from_days_props(6) [OF c] show ?thesis by (simp add: c)
qed

lemma tomorrow_week_differ:
  assumes loc: "zone_ok loc" and tz: "zone_ok tz" and now: "0 \<le> now"
  shows "ymdInTZ tz (addDays loc now 1) \<noteq> ymdInTZ tz (addDays loc now 7)"
proof
  assume e: "ymdInTZ tz (addDays loc now 1) = ymdInTZ tz (addDays loc now 7)"
  define L where "L = LocalTime loc now"
  define A where "A = LocalTime tz (addDays loc now 1)"
  define B where "B = LocalTime tz (addDays loc now 7)"
  have bnd: "\<And>z t. zone_ok z \<Longrightarrow> - msPerDay \<le> utc_offset z t \<and> utc_offset z t \<le> msPerDay
      \<and> - msPerDay \<le> local_offset z t \<and> local_offset z t \<le> msPerDay"
    unfolding zone_ok_def by (auto simp: abs_le_iff) (metis abs_le_iff minus_le_iff)+
  have L: "now - msPerDay \<le> L" "L \<le> now + msPerDay"
    using bnd [OF loc, of now] by (simp_all add: L_def LocalTime_def)
  have A: "L - msPerDay \<le> A" "A \<le> L + 3 * msPerDay"
    using bnd [OF loc, of "L + 1 * msPerDay"] bnd [OF tz, of "addDays loc now 1"]
    by (simp_all add: A_def LocalTime_def addDays_eq UTC_def L_def)
  have B: "L + 5 * msPerDay \<le> B"
    using bnd [OF loc, of "L + 7 * msPerDay"] bnd [OF tz, of "addDays loc now 7"]
    by (simp_all add: B_def LocalTime_def addDays_eq UTC_def L_def)
  have "Day A < Day B" using A B by (simp add: Day_def msPerDay_def)
  moreover have "0 < fst (civil_from_days (Day A))" "0 < fst (civil_from_days (Day B))"
    using A B L now by (auto intro!: year_positive simp: Day_def msPerDay_def)
  ultimately show False using e ymd_string_inj [of "Day A" "Day B"]
    by (simp add: ymdInTZ_def A_def B_def)
qed

section \<open>Properties of the bot\<close>

subsection \<open>Sequencing and the loop\<close>

lemma and_then_Normal [simp]: "and_then (s, Normal) f = f s"
  by (simp add: and_then_def)

lemma and_then_Throw [simp]: "and_then (s, Throw e) f = (s, Throw e)"
  by (simp add: and_then_def)

lemma for_events_append:
  "for_events P w (xs @ ys) s = and_then (for_events P w xs s) (for_events P w ys)"
proof (induction xs arbitrary: s)
  case Nil
  show ?case by simp
next
  case (Cons x xs)
  obtain s1 c where r: "process_event P w x s = (s1, c)" by (cases "process_event P w x s")
  show ?case using Cons.IH [of s1] by (cases c) (simp_all add: r)
qed

lemma process_event_malformed: "malformed e \<Longrightarrow> process_event P w e s = (s, Normal)"
  by (auto simp: malformed_def process_event_def js_or_def Let_def split: option.splits)

subsection \<open>A failed fetch\<close>

text \<open>
  C5. If \<open>getUpcomingEvents\<close> rejects, \<open>checkCalendarAndNotify\<close> catches the error:
  it returns normally, no request is made, both reminded sets are as they were, and
  the error is only logged.
\<close>

theorem fetch_failure_atomic:
  "snd (checkCalendarAndNotify P (Inl err) now s) = Normal
   \<and> posts (fst (checkCalendarAndNotify P (Inl err) now s)) = posts s
   \<and> remindedDay (fst (checkCalendarAndNotify P (Inl err) now s)) = remindedDay s
   \<and> remindedWeek (fst (checkCalendarAndNotify P (Inl err) now s)) = remindedWeek s
   \<and> logged (fst (checkCalendarAndNotify P (Inl err) now s)) = logged s @ [err]"
  by (simp add: checkCalendarAndNotify_def try_block_def)

theorem fetch_failure_atomic_witness:
  "snd (checkCalendarAndNotify sample_platform (Inl FetchError) june_9_noon initial) = Normal
   \<and> posts (fst (checkCalendarAndNotify sample_platform (Inl FetchError) june_9_noon initial)) = []
   \<and> remindedDay (fst (checkCalendarAndNotify sample_platform (Inl FetchError) june_9_noon initial)) = {}
   \<and> remindedWeek (fst (checkCalendarAndNotify sample_platform (Inl FetchError) june_9_noon initial)) = {}"
  using fetch_failure_atomic [of sample_platform FetchError june_9_noon initial]
  by (simp add: initial_def)

subsection \<open>Malformed events\<close>

text \<open>
  C6. An event without an id, without a start, or whose start has neither a date nor
  a dateTime is skipped: the loop body leaves the state as it is and completes
  normally, so the batch behaves as if the event were not in it.
\<close>

theorem malformed_event_skipped:
  assumes "malformed e"
  shows "process_event P w e s = (s, Normal)
    \<and> for_events P w (xs @ e # ys) s = for_events P w (xs @ ys) s"
proof -
  obtain s1 c where r: "for_events P w xs s = (s1, c)" by (cases "for_events P w xs s")
  have "for_events P w (xs @ e # ys) s = for_events P w (xs @ ys) s"
    by (cases c) (simp_all add: for_events_append r process_event_malformed [OF assms])
  with process_event_malformed [OF assms] show ?thesis by simp
qed

theorem malformed_event_skipped_witness:
  "malformed no_start
   \<and> process_event sample_platform (window_at sample_platform june_9_noon) no_start initial
     = (initial, Normal)
   \<and> for_events sample_platform (window_at sample_platform june_9_noon)
       ([standup] @ no_start # [review]) initial
     = for_events sample_platform (window_at sample_platform june_9_noon)
       ([standup] @ [review]) initial"
proof -
  have m: "malformed no_start" by (simp add: malformed_def no_start_def)
  from malformed_event_skipped [OF m] m show ?thesis by blast
qed

subsection \<open>All-day events\<close>

text \<open>
  C3. For an all-day event (its start has a date and no dateTime) with \<open>start.date = D\<close>,
  the date that the loop body compares with the window is \<open>D\<close> itself, whatever the
  platform, its time zones and the clock are.
\<close>

theorem all_day_date_verbatim:
  assumes "start e = Some st" and "isAllDay e" and "date st = Some D"
  shows "eventYMD P st = Inr D
    \<and> (truthy (event_id e) \<longrightarrow>
         process_event P (window_at P now) e s =
           and_then (remind_day P (window_at P now) e D s) (remind_week P (window_at P now) e D))"
  using assms by (auto simp: eventYMD_def isAllDay_def process_event_def js_or_def)

theorem all_day_date_verbatim_witness:
  "start standup = Some \<lparr> date = Some ''2026-06-10'', dateTime = None \<rparr> \<and> isAllDay standup
   \<and> eventYMD flaky_platform \<lparr> date = Some ''2026-06-10'', dateTime = None \<rparr> = Inr ''2026-06-10''"
proof -
  have a: "start standup = Some \<lparr> date = Some ''2026-06-10'', dateTime = None \<rparr>"
    by (simp add: standup_def)
  have b: "isAllDay standup" by (simp add: standup_def isAllDay_def)
  have c: "date \<lparr> date = Some ''2026-06-10'', dateTime = None \<rparr> = Some ''2026-06-10''" by simp
  from all_day_date_verbatim [OF a b c, of flaky_platform] a b show ?thesis by simp
qed

text \<open>
  The earlier variant in \<open>src/index.js\<close> does not have this property: the all-day
  date 2026-06-10 is read as midnight UTC, which is still June 9 in Los Angeles.
\<close>

lemma index_js_shifts_all_day_date:
  "eventYMD_index_js sample_platform (the (start standup)) = Inr ''2026-06-09''"
  by code_simp

subsection \<open>The window of a cycle\<close>

text \<open>
  On a host whose zone has a constant offset, \<open>addDays\<close> adds whole days of 24
  hours; the date of the result in a zone is the date that many days later whenever
  the zone has the same offset at both instants.
\<close>

lemma window_without_transition:
  assumes "utc_offset loc = (\<lambda>t. c)" and "local_offset loc = (\<lambda>t. c)"
    and "utc_offset tz (now + n * msPerDay) = utc_offset tz now"
  shows "ymdInTZ tz (addDays loc now n)
         = ymd_string (civil_from_days (Day (LocalTime tz now) + n))"
proof -
  have a: "addDays loc now n = now + n * msPerDay"
    by (simp add: addDays_eq UTC_def LocalTime_def assms(1,2))
  have "LocalTime tz (now + n * msPerDay) = LocalTime tz now + n * msPerDay"
    by (simp add: LocalTime_def assms(3))
  moreover have "Day (LocalTime tz now + n * msPerDay) = Day (LocalTime tz now) + n"
    by (simp add: Day_def msPerDay_def)
  ultimately show ?thesis
    by (simp only: ymdInTZ_def a)
qed

text \<open>
  C4. The claim is that \<open>tomorrowYMD\<close> is the date after \<open>todayYMD\<close> in
  \<open>TIMEZONE\<close> and \<open>weekYMD\<close> the date seven days after it. On a host in UTC,
  \<open>addDays(now, n)\<close> is \<open>now\<close> plus \<open>n\<close> times 24 hours. Half past midnight in
  Los Angeles on the 25-hour day on which summer time ends, 24 hours later is still the
  same day there, and \<open>tomorrowYMD\<close> equals \<open>todayYMD\<close>; six days earlier at the
  same hour, \<open>weekYMD\<close> is the date six days later, not seven.
\<close>

theorem tomorrow_is_today_when_summer_time_ends:
  "todayYMD (window_at sample_platform november_1_night) = ''2026-11-01''
   \<and> tomorrowYMD (window_at sample_platform november_1_night) = ''2026-11-01''
   \<and> todayYMD (window_at sample_platform october_26_night) = ''2026-10-26''
   \<and> weekYMD (window_at sample_platform october_26_night) = ''2026-11-01''"
  by code_simp

subsection \<open>Stripping tags and trimming\<close>

lemma set_strip_tags: "set (strip_tags s) \<subseteq> set s"
proof (induction s rule: strip_tags.induct)
  case 1
  show ?case by simp
next
  case (2 c cs)
  show ?case
  proof (cases "c = CHR ''<''")
    case False
    with 2(3) show ?thesis by auto
  next
    case True
    show ?thesis
    proof (cases "dropWhile (\<lambda>x. x \<noteq> CHR ''>'') cs")
      case Nil
      from 2(1) [OF True Nil] have "set (strip_tags cs) \<subseteq> set cs" .
      then have "set (c # strip_tags cs) \<subseteq> set (c # cs)" by auto
      with True Nil show ?thesis by (simp del: dropWhile_eq_Nil_conv)
    next
      case (Cons g rest)
      from 2(2) [OF True Cons] have ih: "set (strip_tags rest) \<subseteq> set rest" .
      have "set (g # rest) \<subseteq> set cs"
        unfolding Cons [symmetric] by (auto dest: set_dropWhileD)
      with ih have "set (strip_tags rest) \<subseteq> set (c # cs)" by auto
      with True Cons show ?thesis by simp
    qed
  qed
qed

lemma dropWhile_Nil_iff: "dropWhile (\<lambda>x. x \<noteq> a) cs = [] \<longleftrightarrow> a \<notin> set cs"
  by (auto simp: dropWhile_eq_Nil_conv)

lemma strip_tags_no_tag: "\<not> has_tag (strip_tags s)"
proof (induction s rule: strip_tags.induct)
  case 1
  show ?case by simp
next
  case (2 c cs)
  show ?case
  proof (cases "c = CHR ''<''")
    case False
    with 2(3) show ?thesis by simp
  next
    case True
    show ?thesis
    proof (cases "dropWhile (\<lambda>x. x \<noteq> CHR ''>'') cs")
      case Nil
      then have "CHR ''>'' \<notin> set cs" using dropWhile_Nil_iff [of "CHR ''>''" cs] by blast
      then have "CHR ''>'' \<notin> set (strip_tags cs)" using set_strip_tags [of cs] by auto
      with True Nil 2(1) [OF True Nil] show ?thesis by (simp del: dropWhile_eq_Nil_conv)
    next
      case (Cons g rest)
      from 2(2) [OF True Cons] True Cons show ?thesis by simp
    qed
  qed
qed

lemma has_tag_append_left: "has_tag y \<Longrightarrow> has_tag (x @ y)"
  by (induction x) auto

lemma has_tag_append_right: "has_tag x \<Longrightarrow> has_tag (x @ y)"
  by (induction x) auto

lemma is_tag_has_tag: "is_tag g \<Longrightarrow> has_tag g"
  by (cases g) (auto simp: is_tag_def dest: last_in_set)

lemma has_tag_iff: "has_tag s \<longleftrightarrow> (\<exists>p g q. s = p @ g @ q \<and> is_tag g)"
proof
  assume "has_tag s"
  then show "\<exists>p g q. s = p @ g @ q \<and> is_tag g"
  proof (induction s)
    case Nil
    then show ?case by simp
  next
    case (Cons c cs)
    show ?case
    proof (cases "c = CHR ''<'' \<and> CHR ''>'' \<in> set cs")
      case True
      define b where "b = takeWhile (\<lambda>x. x \<noteq> CHR ''>'') cs"
      define r where "r = dropWhile (\<lambda>x. x \<noteq> CHR ''>'') cs"
      from True have "r \<noteq> []" using dropWhile_Nil_iff [of "CHR ''>''" cs] unfolding r_def by blast
      then obtain q where r: "r = CHR ''>'' # q"
        using hd_dropWhile [of "\<lambda>x. x \<noteq> CHR ''>''" cs] by (cases r) (auto simp: r_def)
      have cs: "cs = b @ CHR ''>'' # q"
        using takeWhile_dropWhile_id [of "\<lambda>x. x \<noteq> CHR ''>''" cs] by (simp add: b_def r_def [symmetric] r)
      have nb: "CHR ''>'' \<notin> set b" by (auto simp: b_def dest: set_takeWhileD)
      have "is_tag (CHR ''<'' # b @ [CHR ''>''])" using nb by (simp add: is_tag_def)
      moreover have "c # cs = [] @ (CHR ''<'' # b @ [CHR ''>'']) @ q" using True cs by simp
      ultimately show ?thesis by blast
    next
      case False
      with Cons.prems have "has_tag cs" by auto
      from Cons.IH [OF this] obtain p g q where "cs = p @ g @ q" "is_tag g" by blast
      then have "c # cs = (c # p) @ g @ q \<and> is_tag g" by simp
      then show ?thesis by blast
    qed
  qed
next
  assume "\<exists>p g q. s = p @ g @ q \<and> is_tag g"
  then obtain p g q where s: "s = p @ g @ q" and g: "is_tag g" by blast
  from g have "has_tag (g @ q)" by (intro has_tag_append_right is_tag_has_tag)
  then show "has_tag s" unfolding s by (rule has_tag_append_left)
qed

lemma strip_tags_leftmost:
  assumes "CHR ''<'' \<notin> set p" and "is_tag g"
  shows "strip_tags (p @ g @ q) = p @ strip_tags q"
  using assms(1)
proof (induction p)
  case Nil
  from assms(2) obtain r where g: "g = CHR ''<'' # r" and r: "r \<noteq> []" "last r = CHR ''>''"
    "CHR ''>'' \<notin> set (butlast r)"
    by (cases g) (auto simp: is_tag_def)
  from r have r': "r = butlast r @ [CHR ''>'']" by (metis append_butlast_last_id)
  have "dropWhile (\<lambda>x. x \<noteq> CHR ''>'') (r @ q) = CHR ''>'' # q"
    using r(3) by (subst r') (auto simp: dropWhile_append3)
  then show ?case by (simp add: g)
next
  case (Cons c p)
  then show ?case by auto
qed

lemma strip_tags_id: "\<not> has_tag s \<Longrightarrow> strip_tags s = s"
proof (induction s)
  case Nil
  show ?case by simp
next
  case (Cons c cs)
  from Cons.prems have n: "\<not> has_tag cs" and c: "c = CHR ''<'' \<longrightarrow> CHR ''>'' \<notin> set cs"
    by auto
  from c have "c = CHR ''<'' \<longrightarrow> dropWhile (\<lambda>x. x \<noteq> CHR ''>'') cs = []"
    using dropWhile_Nil_iff [of "CHR ''>''" cs] by blast
  with Cons.IH [OF n] show ?case by (simp del: dropWhile_eq_Nil_conv)
qed

lemma strip_start_suffix: "\<exists>a. s = a @ strip_start ws s"
proof (induction ws s rule: strip_start.induct)
  case (1 ws s)
  show ?case
  proof (cases "find (\<lambda>w. w \<noteq> [] \<and> take (length w) s = w) ws")
    case None
    then show ?thesis by (subst strip_start.simps) simp
  next
    case (Some w)
    from 1 [OF Some] obtain a where a: "drop (length w) s = a @ strip_start ws (drop (length w) s)" ..
    have e: "strip_start ws s = strip_start ws (drop (length w) s)"
      using Some by (subst strip_start.simps) simp
    have "s = take (length w) s @ drop (length w) s" by simp
    also have "\<dots> = (take (length w) s @ a) @ strip_start ws s"
      using a by (simp add: e)
    finally show ?thesis by (rule exI)
  qed
qed

lemma trim_substring: "\<exists>a b. s = a @ trim s @ b"
proof -
  obtain a where a: "s = a @ strip_start white_space s"
    using strip_start_suffix by blast
  define m where "m = strip_start white_space s"
  obtain b where b: "rev m = b @ strip_start (map rev white_space) (rev m)"
    using strip_start_suffix by blast
  then have "rev (rev m) = rev (b @ strip_start (map rev white_space) (rev m))" by simp
  then have "m = trim s @ rev b" by (simp add: trim_def m_def)
  with a show ?thesis unfolding m_def by metis
qed

lemma trim_no_tag: "\<not> has_tag s \<Longrightarrow> \<not> has_tag (trim s)"
proof
  assume n: "\<not> has_tag s" and t: "has_tag (trim s)"
  obtain a b where "s = a @ trim s @ b" using trim_substring by blast
  moreover from t have "has_tag (a @ trim s @ b)"
    by (intro has_tag_append_left has_tag_append_right)
  ultimately show False using n by simp
qed

lemma trim_Nil: "trim [] = []"
proof -
  have "\<And>ws. strip_start ws [] = []"
    by (subst strip_start.simps) (auto simp: find_Some_iff split: option.splits)
  then show ?thesis by (simp add: trim_def)
qed

subsection \<open>The description of a message\<close>

lemma message_text_parts:
  "message_text whenLabel e pretty =
     alarm_clock @ '' *Upcoming event in '' @ whenLabel @ ''*'' @ LF
     @ ''*'' @ (if truthy (summary e) then the (summary e) else ''Untitled event'') @ ''*'' @ LF
     @ calendar_emoji @ '' '' @ pretty @ LF
     @ (case cleanDescription (description e) of
          None \<Rightarrow> [] | Some t \<Rightarrow> LF @ memo_emoji @ '' '' @ t @ LF)
     @ (if truthy (htmlLink e)
        then link_emoji @ '' <'' @ the (htmlLink e) @ ''|Open in Google Calendar>'' else [])"
proof -
  have "cleanDescription (description e) \<noteq> Some []"
    by (simp add: cleanDescription_def Let_def)
  then show ?thesis
    by (cases "cleanDescription (description e)") (simp_all add: message_text_def Let_def)
qed

text \<open>
  C10. \<open>cleanDescription\<close> returns null exactly when the description is absent or
  is empty once every match of \<open><[^>]*>\<close> is removed and the rest is trimmed;
  otherwise it returns that stripped and trimmed text, in which no substring matches
  the pattern. So the description paragraph of a message is either missing or has a
  nonempty body.
\<close>

theorem cleanDescription_sanitizes:
  "(cleanDescription desc = None \<longleftrightarrow> desc = None \<or> trim (strip_tags (the desc)) = [])
   \<and> (cleanDescription desc \<noteq> None \<longrightarrow>
        cleanDescription desc = Some (trim (strip_tags (the desc)))
        \<and> \<not> (\<exists>p g q. trim (strip_tags (the desc)) = p @ g @ q \<and> is_tag g))
   \<and> (\<exists>para.
        message_text whenLabel e pretty =
          (alarm_clock @ '' *Upcoming event in '' @ whenLabel @ ''*'' @ LF
           @ ''*'' @ (if truthy (summary e) then the (summary e) else ''Untitled event'') @ ''*'' @ LF
           @ calendar_emoji @ '' '' @ pretty @ LF)
          @ para
          @ (if truthy (htmlLink e)
             then link_emoji @ '' <'' @ the (htmlLink e) @ ''|Open in Google Calendar>'' else [])
        \<and> (para = [] \<or> (\<exists>t. t \<noteq> [] \<and> para = LF @ memo_emoji @ '' '' @ t @ LF)))"
proof -
  have a: "cleanDescription desc = None \<longleftrightarrow> desc = None \<or> trim (strip_tags (the desc)) = []"
    by (cases desc) (auto simp: cleanDescription_def Let_def trim_Nil)
  have b: "cleanDescription desc \<noteq> None \<longrightarrow> cleanDescription desc = Some (trim (strip_tags (the desc)))"
    by (cases desc) (auto simp: cleanDescription_def Let_def)
  have c: "\<not> (\<exists>p g q. trim (strip_tags (the desc)) = p @ g @ q \<and> is_tag g)"
    using trim_no_tag [OF strip_tags_no_tag, of "the desc"] has_tag_iff [of "trim (strip_tags (the desc))"]
    by blast
  define para where "para = (case cleanDescription (description e) of
          None \<Rightarrow> [] | Some t \<Rightarrow> LF @ memo_emoji @ '' '' @ t @ LF)"
  have "cleanDescription (description e) \<noteq> Some []"
    by (simp add: cleanDescription_def Let_def)
  then have d: "para = [] \<or> (\<exists>t. t \<noteq> [] \<and> para = LF @ memo_emoji @ '' '' @ t @ LF)"
    by (cases "cleanDescription (description e)") (auto simp: para_def)
  have "message_text whenLabel e pretty =
          (alarm_clock @ '' *Upcoming event in '' @ whenLabel @ ''*'' @ LF
           @ ''*'' @ (if truthy (summary e) then the (summary e) else ''Untitled event'') @ ''*'' @ LF
           @ calendar_emoji @ '' '' @ pretty @ LF)
          @ para
          @ (if truthy (htmlLink e)
             then link_emoji @ '' <'' @ the (htmlLink e) @ ''|Open in Google Calendar>'' else [])"
    unfolding para_def by (simp add: message_text_parts)
  with d have "\<exists>para.
        message_text whenLabel e pretty =
          (alarm_clock @ '' *Upcoming event in '' @ whenLabel @ ''*'' @ LF
           @ ''*'' @ (if truthy (summary e) then the (summary e) else ''Untitled event'') @ ''*'' @ LF
           @ calendar_emoji @ '' '' @ pretty @ LF)
          @ para
          @ (if truthy (htmlLink e)
             then link_emoji @ '' <'' @ the (htmlLink e) @ ''|Open in Google Calendar>'' else [])
        \<and> (para = [] \<or> (\<exists>t. t \<noteq> [] \<and> para = LF @ memo_emoji @ '' '' @ t @ LF))"
    by blast
  with a b c show ?thesis by blast
qed

theorem cleanDescription_sanitizes_witness:
  "cleanDescription (description standup) = Some ''Bring notes''
   \<and> cleanDescription (Some ''<br> <i></i>'') = None"
proof -
  have a: "trim (strip_tags (the (description standup))) = ''Bring notes''" by code_simp
  have b: "trim (strip_tags (the (Some ''<br> <i></i>''))) = []" by code_simp
  have c: "description standup \<noteq> None" by (simp add: standup_def)
  from cleanDescription_sanitizes [of "description standup"]
    cleanDescription_sanitizes [of "Some ''<br> <i></i>''"] a b c
  show ?thesis by simp
qed

subsection \<open>The guarded sends and their invariants\<close>

lemma label_eq_iff [simp]: "label a = label b \<longleftrightarrow> a = b"
  by (cases a; cases b) simp_all

lemma reminded_mark [simp]:
  "reminded th (mark th' j s) = (if th = th' then insert j (reminded th s) else reminded th s)"
  by (cases th; cases th') simp_all

lemma reminded_posts_update [simp]: "reminded th (s\<lparr>posts := ps\<rparr>) = reminded th s"
  by (cases th) simp_all

lemma reminded_logged_update [simp]: "reminded th (s\<lparr>logged := l\<rparr>) = reminded th s"
  by (cases th) simp_all

lemma posts_mark [simp]: "posts (mark th j s) = posts s"
  by (cases th) simp_all

lemma logged_mark [simp]: "logged (mark th j s) = logged s"
  by (cases th) simp_all

lemma requests_for_snoc:
  "requests_for i th (ps @ [p]) =
     requests_for i th ps @ (if event_id (p_event p) = Some i \<and> p_label p = label th then [p] else [])"
  by (simp add: requests_for_def)

lemma delivered_for_snoc:
  "delivered_for i th (ps @ [p]) =
     delivered_for i th ps
       @ (if event_id (p_event p) = Some i \<and> p_label p = label th \<and> p_ok p then [p] else [])"
  by (simp add: delivered_for_def requests_for_def)

text \<open>What a guarded send does, spelled out.\<close>

lemma remind_unfold:
  "remind th P w e ymd s =
     (if ymd = window_date th w \<and> the (event_id e) \<notin> reminded th s then
        (case prettyStart P e of
           Inl err \<Rightarrow> (s, Throw err)
         | Inr pretty \<Rightarrow>
             (if postMessage_ok P (length (posts s))
              then (mark th (the (event_id e))
                      (s\<lparr>posts := posts s @ [\<lparr>p_event = e, p_label = label th,
                           p_text = message_text (label th) e pretty, p_ok = True\<rparr>]\<rparr>), Normal)
              else (s\<lparr>posts := posts s @ [\<lparr>p_event = e, p_label = label th,
                           p_text = message_text (label th) e pretty, p_ok = False\<rparr>]\<rparr>,
                    Throw DeliveryError)))
      else (s, Normal))"
  by (cases th)
     (auto simp: remind.simps remind_day_def remind_week_def sendSlackReminder_def Let_def
        split: sum.splits)

lemma process_event_unfold:
  "process_event P w e s =
     (if malformed e then (s, Normal)
      else (case eventYMD P (the (start e)) of
              Inl err \<Rightarrow> (s, Throw err)
            | Inr ymd \<Rightarrow> and_then (remind OneDay P w e ymd s) (remind OneWeek P w e ymd)))"
  by (auto simp: remind.simps process_event_def malformed_def js_or_def Let_def
        split: option.splits sum.splits)


text \<open>Lifting an invariant of the guarded sends to the loop body, the loop, a cycle, a run.\<close>

lemma process_event_lift:
  assumes rem: "\<And>th ymd s. I s \<Longrightarrow> \<not> malformed e \<Longrightarrow> eventYMD P (the (start e)) = Inr ymd
                  \<Longrightarrow> I (fst (remind th P w e ymd s))"
    and s: "I s"
  shows "I (fst (process_event P w e s))"
proof (cases "malformed e")
  case True
  with s show ?thesis by (simp add: process_event_unfold)
next
  case False
  note m = this
  show ?thesis
  proof (cases "eventYMD P (the (start e))")
    case (Inl err)
    with m s show ?thesis by (simp add: process_event_unfold)
  next
    case (Inr ymd)
    obtain s1 c1 where r: "remind OneDay P w e ymd s = (s1, c1)"
      by (cases "remind OneDay P w e ymd s")
    from rem [OF s m Inr, of OneDay] r have s1: "I s1" by simp
    show ?thesis
    proof (cases c1)
      case Normal
      with rem [OF s1 m Inr, of OneWeek] m Inr r show ?thesis
        by (simp add: process_event_unfold)
    next
      case (Throw err)
      with s1 m Inr r show ?thesis by (simp add: process_event_unfold)
    qed
  qed
qed

lemma for_events_lift:
  assumes pe: "\<And>e s. I s \<Longrightarrow> I (fst (process_event P w e s))"
  shows "I s \<Longrightarrow> I (fst (for_events P w es s))"
proof (induction es arbitrary: s)
  case Nil
  then show ?case by simp
next
  case (Cons e es)
  obtain s1 c1 where r: "process_event P w e s = (s1, c1)" by (cases "process_event P w e s")
  from pe [OF Cons.prems, of e] r have s1: "I s1" by simp
  show ?case
  proof (cases c1)
    case Normal
    with Cons.IH [OF s1] r show ?thesis by simp
  next
    case (Throw err)
    with s1 r show ?thesis by simp
  qed
qed

lemma cycle_lift:
  assumes pe: "\<And>e s. I s \<Longrightarrow> I (fst (process_event P (window_at P now) e s))"
    and lg: "\<And>s l. I s \<Longrightarrow> I (s\<lparr>logged := l\<rparr>)"
    and s: "I s"
  shows "I (fst (checkCalendarAndNotify P fetched now s))"
proof (cases fetched)
  case (Inl err)
  with lg [OF s] show ?thesis by (simp add: checkCalendarAndNotify_def try_block_def)
next
  case (Inr events)
  obtain s1 c1 where r: "for_events P (window_at P now) events s = (s1, c1)"
    by (cases "for_events P (window_at P now) events s")
  from for_events_lift [of I P "window_at P now", OF pe s, of events] r have s1: "I s1" by simp
  show ?thesis
  proof (cases c1)
    case Normal
    with s1 r Inr show ?thesis by (simp add: checkCalendarAndNotify_def try_block_def)
  next
    case (Throw err)
    with lg [OF s1] r Inr show ?thesis by (simp add: checkCalendarAndNotify_def try_block_def)
  qed
qed

lemma run_lift:
  assumes pe: "\<And>w e s. I s \<Longrightarrow> I (fst (process_event P w e s))"
    and lg: "\<And>s l. I s \<Longrightarrow> I (s\<lparr>logged := l\<rparr>)"
  shows "I s \<Longrightarrow> I (run_in_turn P cs s)"
proof (induction cs arbitrary: s)
  case Nil
  then show ?case by simp
next
  case (Cons c cs)
  from cycle_lift [of I P "snd c", OF pe lg Cons.prems] have "I (fst (checkCalendarAndNotify P (fst c) (snd c) s))" .
  from Cons.IH [OF this] show ?case by simp
qed

lemma not_malformed_id: "\<not> malformed e \<Longrightarrow> event_id e = Some (the (event_id e))"
  by (cases "event_id e") (auto simp: malformed_def split: option.splits)

text \<open>
  The ledger and the deliveries agree: an id is in the reminded set of a threshold
  exactly when a request for the pair has been delivered, and at most one has been.
\<close>

lemma remind_ledger:
  assumes inv: "length (delivered_for i th (posts s)) \<le> 1
                \<and> (i \<in> reminded th s \<longleftrightarrow> delivered_for i th (posts s) \<noteq> [])"
    and m: "\<not> malformed e"
  shows "length (delivered_for i th (posts (fst (remind th' P w e ymd s)))) \<le> 1
         \<and> (i \<in> reminded th (fst (remind th' P w e ymd s))
              \<longleftrightarrow> delivered_for i th (posts (fst (remind th' P w e ymd s))) \<noteq> [])"
proof -
  note id = not_malformed_id [OF m]
  show ?thesis
  proof (cases "ymd = window_date th' w \<and> the (event_id e) \<notin> reminded th' s")
    case False
    with inv show ?thesis by (auto simp: remind_unfold)
  next
    case True
    note g = this
    show ?thesis
    proof (cases "prettyStart P e")
      case (Inl err)
      with g inv show ?thesis by (simp add: remind_unfold)
    next
      case (Inr pretty)
      show ?thesis
      proof (cases "postMessage_ok P (length (posts s))")
        case False
        with g Inr inv show ?thesis by (simp add: remind_unfold delivered_for_snoc)
      next
        case True
        show ?thesis
        proof (cases "the (event_id e) = i \<and> th' = th")
          case True
          with g inv have "delivered_for i th (posts s) = []" by auto
          with True g Inr \<open>postMessage_ok P (length (posts s))\<close> id show ?thesis
            by (simp add: remind_unfold delivered_for_snoc)
        next
          case False
          with g Inr \<open>postMessage_ok P (length (posts s))\<close> id inv show ?thesis
            by (auto simp: remind_unfold delivered_for_snoc)
        qed
      qed
    qed
  qed
qed

lemma run_ledger:
  assumes "length (delivered_for i th (posts s)) \<le> 1
           \<and> (i \<in> reminded th s \<longleftrightarrow> delivered_for i th (posts s) \<noteq> [])"
  shows "length (delivered_for i th (posts (run_in_turn P cs s))) \<le> 1
         \<and> (i \<in> reminded th (run_in_turn P cs s) \<longleftrightarrow> delivered_for i th (posts (run_in_turn P cs s)) \<noteq> [])"
proof (rule run_lift [where I = "\<lambda>s. length (delivered_for i th (posts s)) \<le> 1
           \<and> (i \<in> reminded th s \<longleftrightarrow> delivered_for i th (posts s) \<noteq> [])"])
  fix w e s
  assume "length (delivered_for i th (posts s)) \<le> 1
           \<and> (i \<in> reminded th s \<longleftrightarrow> delivered_for i th (posts s) \<noteq> [])"
  then show "length (delivered_for i th (posts (fst (process_event P w e s)))) \<le> 1
           \<and> (i \<in> reminded th (fst (process_event P w e s))
                \<longleftrightarrow> delivered_for i th (posts (fst (process_event P w e s))) \<noteq> [])"
    by (rule process_event_lift [rotated]) (rule remind_ledger)
next
  fix s :: state and l
  assume "length (delivered_for i th (posts s)) \<le> 1
           \<and> (i \<in> reminded th s \<longleftrightarrow> delivered_for i th (posts s) \<noteq> [])"
  then show "length (delivered_for i th (posts (s\<lparr>logged := l\<rparr>))) \<le> 1
           \<and> (i \<in> reminded th (s\<lparr>logged := l\<rparr>) \<longleftrightarrow> delivered_for i th (posts (s\<lparr>logged := l\<rparr>)) \<noteq> [])"
    by simp
next
  show "length (delivered_for i th (posts s)) \<le> 1
           \<and> (i \<in> reminded th s \<longleftrightarrow> delivered_for i th (posts s) \<noteq> [])"
    by (rule assms)
qed

text \<open>Every request of a cycle is for an event whose date is the window date of its label.\<close>

lemma remind_window:
  fixes s :: state
  assumes inv: "n \<le> length (posts s) \<and> (\<forall>p\<in>set (drop n (posts s)).
                  \<exists>th. p_label p = label th
                     \<and> eventYMD P (the (start (p_event p))) = Inr (window_date th w))"
    and y: "eventYMD P (the (start e)) = Inr ymd"
  shows "n \<le> length (posts (fst (remind th' P w e ymd s)))
         \<and> (\<forall>p\<in>set (drop n (posts (fst (remind th' P w e ymd s)))).
                  \<exists>th. p_label p = label th
                     \<and> eventYMD P (the (start (p_event p))) = Inr (window_date th w))"
  using inv y by (auto simp: remind_unfold split: sum.splits)

lemma cycle_window:
  fixes s :: state
  shows "\<forall>p\<in>set (drop (length (posts s)) (posts (fst (checkCalendarAndNotify P fetched now s)))).
           \<exists>th. p_label p = label th
              \<and> eventYMD P (the (start (p_event p))) = Inr (window_date th (window_at P now))"
proof -
  define n where "n = length (posts s)"
  define I where "I = (\<lambda>s :: state. n \<le> length (posts s) \<and> (\<forall>p\<in>set (drop n (posts s)).
                  \<exists>th. p_label p = label th
                     \<and> eventYMD P (the (start (p_event p))) = Inr (window_date th (window_at P now))))"
  have "I (fst (checkCalendarAndNotify P fetched now s))"
  proof (rule cycle_lift [where I = I])
    fix e and s' :: state
    assume "I s'"
    then show "I (fst (process_event P (window_at P now) e s'))"
    proof (rule process_event_lift [rotated])
      fix th ymd and s'' :: state
      assume "I s''" and "eventYMD P (the (start e)) = Inr ymd"
      then show "I (fst (remind th P (window_at P now) e ymd s''))"
        unfolding I_def by (intro remind_window) simp_all
    qed
  next
    fix s' :: state and l
    assume "I s'"
    then show "I (s'\<lparr>logged := l\<rparr>)" by (simp add: I_def)
  next
    show "I s" by (simp add: I_def n_def)
  qed
  then show ?thesis by (simp add: I_def n_def)
qed

text \<open>
  C7. Where the offsets of the host's zone and of \<open>TIMEZONE\<close> stay within a day of
  UTC and the clock is not before 1970, \<open>tomorrowYMD\<close> differs from \<open>weekYMD\<close>,
  and so among the requests that one cycle makes, no event has both a one-day and a
  one-week request.
\<close>

theorem thresholds_exclusive:
  assumes "zone_ok (TIMEZONE P)" and "zone_ok (localTZ P)" and "0 \<le> now"
  shows "tomorrowYMD (window_at P now) \<noteq> weekYMD (window_at P now)
    \<and> (\<forall>p\<in>set (drop (length (posts s)) (posts (fst (checkCalendarAndNotify P fetched now s)))).
       \<forall>q\<in>set (drop (length (posts s)) (posts (fst (checkCalendarAndNotify P fetched now s)))).
         p_event p = p_event q \<longrightarrow> p_label p = p_label q)"
proof -
  have d: "tomorrowYMD (window_at P now) \<noteq> weekYMD (window_at P now)"
    using tomorrow_week_differ [OF assms(2,1,3)] by (simp add: window_at_def)
  have "p_label p = p_label q"
    if p: "p \<in> set (drop (length (posts s)) (posts (fst (checkCalendarAndNotify P fetched now s))))"
      and q: "q \<in> set (drop (length (posts s)) (posts (fst (checkCalendarAndNotify P fetched now s))))"
      and e: "p_event p = p_event q" for p q
  proof -
    from cycle_window [of s P fetched now] p obtain th where
      th: "p_label p = label th" "eventYMD P (the (start (p_event p))) = Inr (window_date th (window_at P now))"
      by blast
    from cycle_window [of s P fetched now] q obtain th' where
      th': "p_label q = label th'" "eventYMD P (the (start (p_event q))) = Inr (window_date th' (window_at P now))"
      by blast
    from th(2) th'(2) e have "window_date th (window_at P now) = window_date th' (window_at P now)"
      by simp
    with d have "th = th'" by (cases th; cases th') simp_all
    with th(1) th'(1) show ?thesis by simp
  qed
  with d show ?thesis by blast
qed

theorem thresholds_exclusive_witness:
  "zone_ok (TIMEZONE sample_platform) \<and> zone_ok (localTZ sample_platform) \<and> 0 \<le> june_9_noon
   \<and> tomorrowYMD (window_at sample_platform june_9_noon) \<noteq> weekYMD (window_at sample_platform june_9_noon)
   \<and> map p_label (posts (fst (checkCalendarAndNotify sample_platform (Inr [standup, review]) june_9_noon initial)))
      = [''1 day'', ''1 day'']"
proof -
  have a: "zone_ok (TIMEZONE sample_platform)"
    by (simp add: sample_platform_def zone_ok_def America_Los_Angeles_def msPerDay_def)
  have b: "zone_ok (localTZ sample_platform)"
    by (simp add: sample_platform_def zone_ok_def Etc_UTC_def msPerDay_def)
  have c: "0 \<le> june_9_noon" by (simp add: june_9_noon_def)
  have d: "map p_label (posts (fst (checkCalendarAndNotify sample_platform (Inr [standup, review]) june_9_noon initial)))
      = [''1 day'', ''1 day'']" by code_simp
  from thresholds_exclusive [OF a b c] a b c d show ?thesis by simp
qed

subsection \<open>At most one delivery\<close>

text \<open>Once a pair is in the ledger, no request is made for it.\<close>

lemma remind_marked:
  assumes inv: "i \<in> reminded th s0 \<longrightarrow>
                  i \<in> reminded th s \<and> requests_for i th (posts s) = requests_for i th (posts s0)"
    and m: "\<not> malformed e"
  shows "i \<in> reminded th s0 \<longrightarrow>
           i \<in> reminded th (fst (remind th' P w e ymd s))
           \<and> requests_for i th (posts (fst (remind th' P w e ymd s))) = requests_for i th (posts s0)"
proof
  assume "i \<in> reminded th s0"
  with inv have i: "i \<in> reminded th s" and r: "requests_for i th (posts s) = requests_for i th (posts s0)"
    by simp_all
  note id = not_malformed_id [OF m]
  show "i \<in> reminded th (fst (remind th' P w e ymd s))
        \<and> requests_for i th (posts (fst (remind th' P w e ymd s))) = requests_for i th (posts s0)"
  proof (cases "ymd = window_date th' w \<and> the (event_id e) \<notin> reminded th' s")
    case False
    with i r show ?thesis by (auto simp: remind_unfold)
  next
    case True
    with i have ne: "\<not> (the (event_id e) = i \<and> th' = th)" by auto
    show ?thesis
    proof (cases "prettyStart P e")
      case (Inl err)
      with True i r show ?thesis by (simp add: remind_unfold)
    next
      case (Inr pretty)
      with True i r ne id show ?thesis
        by (cases "postMessage_ok P (length (posts s))") (auto simp: remind_unfold requests_for_snoc)
    qed
  qed
qed

lemma run_marked:
  assumes "i \<in> reminded th s"
  shows "i \<in> reminded th (run_in_turn P cs s) \<and> requests_for i th (posts (run_in_turn P cs s)) = requests_for i th (posts s)"
proof -
  have "i \<in> reminded th s \<longrightarrow>
          i \<in> reminded th (run_in_turn P cs s) \<and> requests_for i th (posts (run_in_turn P cs s)) = requests_for i th (posts s)"
  proof (rule run_lift [where I = "\<lambda>s'. i \<in> reminded th s \<longrightarrow>
          i \<in> reminded th s' \<and> requests_for i th (posts s') = requests_for i th (posts s)"])
    fix w e s'
    assume "i \<in> reminded th s \<longrightarrow>
          i \<in> reminded th s' \<and> requests_for i th (posts s') = requests_for i th (posts s)"
    then show "i \<in> reminded th s \<longrightarrow>
          i \<in> reminded th (fst (process_event P w e s'))
          \<and> requests_for i th (posts (fst (process_event P w e s'))) = requests_for i th (posts s)"
      by (rule process_event_lift [rotated]) (rule remind_marked)
  next
    fix s' :: state and l
    assume "i \<in> reminded th s \<longrightarrow>
          i \<in> reminded th s' \<and> requests_for i th (posts s') = requests_for i th (posts s)"
    then show "i \<in> reminded th s \<longrightarrow>
          i \<in> reminded th (s'\<lparr>logged := l\<rparr>)
          \<and> requests_for i th (posts (s'\<lparr>logged := l\<rparr>)) = requests_for i th (posts s)"
      by simp
  next
    show "i \<in> reminded th s \<longrightarrow>
          i \<in> reminded th s \<and> requests_for i th (posts s) = requests_for i th (posts s)"
      by simp
  qed
  with assms show ?thesis by simp
qed

text \<open>Where every call of the Slack API succeeds, every request is delivered.\<close>

lemma run_all_delivered:
  assumes ok: "\<forall>k. postMessage_ok P k" and s: "\<forall>p\<in>set (posts s). p_ok p"
  shows "\<forall>p\<in>set (posts (run_in_turn P cs s)). p_ok p"
proof (rule run_lift [where I = "\<lambda>s. \<forall>p\<in>set (posts s). p_ok p"])
  fix w e and s :: state
  assume "\<forall>p\<in>set (posts s). p_ok p"
  then show "\<forall>p\<in>set (posts (fst (process_event P w e s))). p_ok p"
  proof (rule process_event_lift [rotated])
    fix th ymd and s :: state
    assume "\<forall>p\<in>set (posts s). p_ok p"
    with ok show "\<forall>p\<in>set (posts (fst (remind th P w e ymd s))). p_ok p"
      by (auto simp: remind_unfold split: sum.splits)
  qed
next
  fix s :: state and l
  assume "\<forall>p\<in>set (posts s). p_ok p"
  then show "\<forall>p\<in>set (posts (s\<lparr>logged := l\<rparr>)). p_ok p" by simp
next
  show "\<forall>p\<in>set (posts s). p_ok p" by (rule s)
qed

lemma initial_ledger:
  "length (delivered_for i th (posts initial)) \<le> 1
   \<and> (i \<in> reminded th initial \<longleftrightarrow> delivered_for i th (posts initial) \<noteq> [])"
  by (cases th) (simp_all add: initial_def delivered_for_def requests_for_def)

text \<open>
  C1, as amended. Over any sequence of cycles of one process that take their turns
  (each has returned before the next begins), started with empty sets: at most one
  request is delivered for an event id and threshold; once the id is in the reminded
  set of the threshold, no further request is made for the pair, whatever the later
  cycles fetch; and where no call of the Slack API fails, at most one request is made
  for the pair at all.
\<close>

theorem at_most_one_delivery:
  "length (delivered_for i th (posts (run_in_turn P cs initial))) \<le> 1
   \<and> (i \<in> reminded th s \<longrightarrow>
        requests_for i th (posts (run_in_turn P cs s)) = requests_for i th (posts s))
   \<and> ((\<forall>k. postMessage_ok P k) \<longrightarrow>
        length (requests_for i th (posts (run_in_turn P cs initial))) \<le> 1)"
proof -
  have a: "length (delivered_for i th (posts (run_in_turn P cs initial))) \<le> 1"
    using run_ledger [OF initial_ledger, of i th P cs] by simp
  have b: "i \<in> reminded th s \<longrightarrow>
        requests_for i th (posts (run_in_turn P cs s)) = requests_for i th (posts s)"
    using run_marked [of i th s P cs] by simp
  have c: "length (requests_for i th (posts (run_in_turn P cs initial))) \<le> 1" if ok: "\<forall>k. postMessage_ok P k"
  proof -
    have "\<forall>p\<in>set (posts (run_in_turn P cs initial)). p_ok p"
      using run_all_delivered [OF ok, of initial cs] by (simp add: initial_def)
    then have "delivered_for i th (posts (run_in_turn P cs initial)) = requests_for i th (posts (run_in_turn P cs initial))"
      by (auto simp: delivered_for_def requests_for_def intro!: filter_cong)
    with a show ?thesis by simp
  qed
  from a b c show ?thesis by blast
qed

text \<open>
  C1 as stated fails where a delivery fails: the same all-day event is fetched in two
  cycles, the first call of the Slack API fails, and two requests are made for the
  one-week reminder of the event.
\<close>

theorem repeated_request_after_failed_delivery:
  "length (requests_for ''a'' OneWeek
     (posts (run_in_turn flaky_platform [(Inr [standup], june_3_noon), (Inr [standup], june_3_noon)] initial))) = 2"
  by code_simp

theorem at_most_one_delivery_witness:
  "length (delivered_for ''a'' OneDay
     (posts (run_in_turn sample_platform [(Inr [standup], june_9_noon), (Inr [standup], june_9_noon)] initial))) \<le> 1
   \<and> ''a'' \<in> reminded OneDay (run_in_turn sample_platform [(Inr [standup], june_9_noon)] initial)
   \<and> requests_for ''a'' OneDay
       (posts (run_in_turn sample_platform [(Inr [standup], june_9_noon)]
                 (run_in_turn sample_platform [(Inr [standup], june_9_noon)] initial)))
     = requests_for ''a'' OneDay (posts (run_in_turn sample_platform [(Inr [standup], june_9_noon)] initial))
   \<and> (\<forall>k. postMessage_ok sample_platform k)
   \<and> length (requests_for ''a'' OneDay
       (posts (run_in_turn sample_platform [(Inr [standup], june_9_noon), (Inr [standup], june_9_noon)] initial))) \<le> 1"
proof -
  have m: "''a'' \<in> reminded OneDay (run_in_turn sample_platform [(Inr [standup], june_9_noon)] initial)"
    by code_simp
  have ok: "\<forall>k. postMessage_ok sample_platform k" by (simp add: sample_platform_def)
  from at_most_one_delivery [of "''a''" OneDay sample_platform
         "[(Inr [standup], june_9_noon), (Inr [standup], june_9_noon)]"
         "run_in_turn sample_platform [(Inr [standup], june_9_noon)] initial"]
    at_most_one_delivery [of "''a''" OneDay sample_platform "[(Inr [standup], june_9_noon)]"
         "run_in_turn sample_platform [(Inr [standup], june_9_noon)] initial"]
    m ok
  show ?thesis by blast
qed

text \<open>
  The condition that the cycles take their turns is needed as well: when two cycles
  overlap as in \<open>overlapping_sends\<close>, both pass the lookup before either inserts,
  and the same reminder is delivered twice although no call fails.
\<close>

lemma overlapping_cycles_deliver_twice:
  "map p_ok (requests_for ''a'' OneDay
     (posts (overlapping_sends sample_platform standup OneDay initial))) = [True, True]"
  by code_simp

subsection \<open>Send, then mark\<close>

lemma eventYMD_prettyStart:
  assumes "start e = Some st" and "eventYMD P st = Inr ymd"
  shows "\<exists>pretty. prettyStart P e = Inr pretty"
  using assms
  by (auto simp: eventYMD_def prettyStart_def isAllDay_def split: if_splits option.splits)

lemma prettyStart_error: "prettyStart P e = Inl err \<Longrightarrow> err \<noteq> DeliveryError"
  by (auto simp: prettyStart_def split: if_splits option.splits)

lemma remind_posts_extend: "\<exists>ps. posts (fst (remind th P w e ymd s)) = posts s @ ps"
  by (auto simp: remind_unfold split: sum.splits)

lemma remind_Throw_DeliveryError:
  assumes "remind th P w e ymd s = (s', Throw DeliveryError)"
  shows "\<exists>p. posts s' = posts s @ [p] \<and> \<not> p_ok p \<and> p_event p = e \<and> p_label p = label th
           \<and> the (event_id e) \<notin> reminded th s'"
  using assms
  by (auto simp: remind_unfold split: if_splits sum.splits dest: prettyStart_error)

lemma not_malformed_start: "\<not> malformed e \<Longrightarrow> start e = Some (the (start e))"
  by (cases "start e") (auto simp: malformed_def)

lemma process_event_sends:
  assumes m: "\<not> malformed e"
    and y: "eventYMD P (the (start e)) = Inr (window_date th w)"
    and n: "the (event_id e) \<notin> reminded th s"
    and d: "th = OneWeek \<longrightarrow> tomorrowYMD w \<noteq> weekYMD w"
  shows "\<exists>p ps. posts (fst (process_event P w e s)) = posts s @ p # ps
           \<and> p_event p = e \<and> p_label p = label th"
proof -
  from eventYMD_prettyStart [OF not_malformed_start [OF m] y]
  obtain pretty where pr: "prettyStart P e = Inr pretty" ..
  define ymd where "ymd = window_date th w"
  have pe: "process_event P w e s = and_then (remind OneDay P w e ymd s) (remind OneWeek P w e ymd)"
    using m y by (simp add: process_event_unfold ymd_def)
  show ?thesis
  proof (cases th)
    case OneWeek
    with d have "ymd \<noteq> window_date OneDay w" by (simp add: ymd_def)
    then have "remind OneDay P w e ymd s = (s, Normal)" by (simp add: remind_unfold)
    with pe have "process_event P w e s = remind OneWeek P w e ymd s" by simp
    with OneWeek n pr show ?thesis by (auto simp: remind_unfold ymd_def)
  next
    case OneDay
    show ?thesis
    proof (cases "postMessage_ok P (length (posts s))")
      case False
      with OneDay n pr pe show ?thesis by (auto simp: remind_unfold ymd_def)
    next
      case True
      define p where "p = \<lparr>p_event = e, p_label = label OneDay,
                           p_text = message_text (label OneDay) e pretty, p_ok = True\<rparr>"
      define s1 where "s1 = mark OneDay (the (event_id e)) (s\<lparr>posts := posts s @ [p]\<rparr>)"
      from True OneDay n pr have r: "remind OneDay P w e ymd s = (s1, Normal)"
        by (simp add: remind_unfold ymd_def s1_def p_def)
      obtain ps where "posts (fst (remind OneWeek P w e ymd s1)) = posts s1 @ ps"
        using remind_posts_extend by blast
      then have "posts (fst (process_event P w e s)) = posts s @ p # ps"
        by (simp add: pe r s1_def)
      moreover have "p_event p = e" "p_label p = label th" by (simp_all add: p_def OneDay)
      ultimately show ?thesis by blast
    qed
  qed
qed

lemma process_event_posts_extend: "\<exists>ps. posts (fst (process_event P w e s)) = posts s @ ps"
proof (rule process_event_lift [where I = "\<lambda>s'. \<exists>ps. posts s' = posts s @ ps"])
  fix th ymd and s' :: state
  assume "\<exists>ps. posts s' = posts s @ ps"
  then obtain ps where "posts s' = posts s @ ps" ..
  moreover obtain qs where "posts (fst (remind th P w e ymd s')) = posts s' @ qs"
    using remind_posts_extend by blast
  ultimately have "posts (fst (remind th P w e ymd s')) = posts s @ (ps @ qs)" by simp
  then show "\<exists>ps. posts (fst (remind th P w e ymd s')) = posts s @ ps" ..
next
  show "\<exists>ps. posts s = posts s @ ps" by simp
qed

lemma for_events_posts_extend: "\<exists>ps. posts (fst (for_events P w es s)) = posts s @ ps"
proof (rule for_events_lift [where I = "\<lambda>s'. \<exists>ps. posts s' = posts s @ ps"])
  fix e and s' :: state
  assume "\<exists>ps. posts s' = posts s @ ps"
  then obtain ps where "posts s' = posts s @ ps" ..
  moreover obtain qs where "posts (fst (process_event P w e s')) = posts s' @ qs"
    using process_event_posts_extend by blast
  ultimately have "posts (fst (process_event P w e s')) = posts s @ (ps @ qs)" by simp
  then show "\<exists>ps. posts (fst (process_event P w e s')) = posts s @ ps" ..
next
  show "\<exists>ps. posts s = posts s @ ps" by simp
qed

text \<open>
  An id that enters a reminded set during the loop does so after a request for the
  pair made in the same loop.
\<close>

lemma remind_marked_requested:
  fixes s' :: state
  assumes inv: "n \<le> length (posts s')
                \<and> (i \<in> reminded th s' \<longrightarrow> requests_for i th (drop n (posts s')) \<noteq> [])"
    and m: "\<not> malformed e"
  shows "n \<le> length (posts (fst (remind th' P w e ymd s')))
         \<and> (i \<in> reminded th (fst (remind th' P w e ymd s'))
              \<longrightarrow> requests_for i th (drop n (posts (fst (remind th' P w e ymd s')))) \<noteq> [])"
proof -
  note id = not_malformed_id [OF m]
  show ?thesis
  proof (cases "ymd = window_date th' w \<and> the (event_id e) \<notin> reminded th' s'")
    case False
    with inv show ?thesis by (auto simp: remind_unfold)
  next
    case True
    note g = this
    show ?thesis
    proof (cases "prettyStart P e")
      case (Inl err)
      with g inv show ?thesis by (simp add: remind_unfold)
    next
      case (Inr pretty)
      show ?thesis
      proof (cases "postMessage_ok P (length (posts s'))")
        case False
        with g Inr inv show ?thesis by (simp add: remind_unfold requests_for_snoc)
      next
        case True
        with g Inr inv id show ?thesis
          by (cases "the (event_id e) = i \<and> th' = th")
             (auto simp: remind_unfold requests_for_snoc)
      qed
    qed
  qed
qed

lemma for_events_marked_requested:
  assumes "i \<notin> reminded th s"
  shows "length (posts s) \<le> length (posts (fst (for_events P w es s)))
         \<and> (i \<in> reminded th (fst (for_events P w es s))
              \<longrightarrow> requests_for i th (drop (length (posts s)) (posts (fst (for_events P w es s)))) \<noteq> [])"
proof (rule for_events_lift [where I = "\<lambda>s'. length (posts s) \<le> length (posts s')
         \<and> (i \<in> reminded th s' \<longrightarrow> requests_for i th (drop (length (posts s)) (posts s')) \<noteq> [])"])
  fix e and s' :: state
  assume "length (posts s) \<le> length (posts s')
         \<and> (i \<in> reminded th s' \<longrightarrow> requests_for i th (drop (length (posts s)) (posts s')) \<noteq> [])"
  then show "length (posts s) \<le> length (posts (fst (process_event P w e s')))
         \<and> (i \<in> reminded th (fst (process_event P w e s'))
              \<longrightarrow> requests_for i th (drop (length (posts s)) (posts (fst (process_event P w e s')))) \<noteq> [])"
    by (rule process_event_lift [rotated]) (rule remind_marked_requested)
next
  show "length (posts s) \<le> length (posts s)
         \<and> (i \<in> reminded th s \<longrightarrow> requests_for i th (drop (length (posts s)) (posts s)) \<noteq> [])"
    using assms by simp
qed

text \<open>
  A cycle whose fetch succeeds and whose loop reaches an event that has the window date
  of a threshold makes a request for the pair, unless the id was in the set before.
\<close>

lemma cycle_requests:
  assumes z: "zone_ok (TIMEZONE P)" "zone_ok (localTZ P)" "0 \<le> now"
    and xs: "snd (for_events P (window_at P now) xs s) = Normal"
    and m: "\<not> malformed e"
    and y: "eventYMD P (the (start e)) = Inr (window_date th (window_at P now))"
    and n: "the (event_id e) \<notin> reminded th s"
  shows "requests_for (the (event_id e)) th
           (drop (length (posts s))
              (posts (fst (checkCalendarAndNotify P (Inr (xs @ e # ys)) now s)))) \<noteq> []"
proof -
  define w where "w = window_at P now"
  define i where "i = the (event_id e)"
  define s1 where "s1 = fst (for_events P w xs s)"
  define s2 where "s2 = fst (process_event P w e s1)"
  define sf where "sf = fst (for_events P w (xs @ e # ys) s)"
  have d: "tomorrowYMD w \<noteq> weekYMD w"
    using tomorrow_week_differ [OF z(2,1,3)] by (simp add: w_def window_at_def)
  from xs have r1: "for_events P w xs s = (s1, Normal)"
    unfolding s1_def w_def by (metis prod.collapse)
  from for_events_marked_requested [OF n, of P w xs]
  have j: "length (posts s) \<le> length (posts s1)"
    "i \<in> reminded th s1 \<longrightarrow> requests_for i th (drop (length (posts s)) (posts s1)) \<noteq> []"
    by (simp_all add: s1_def i_def)
  obtain ps2 where p2: "posts s2 = posts s1 @ ps2"
    using process_event_posts_extend unfolding s2_def by blast
  have "\<exists>more. posts sf = posts s2 @ more"
  proof (cases "snd (process_event P w e s1)")
    case Normal
    then have "process_event P w e s1 = (s2, Normal)" unfolding s2_def by (metis prod.collapse)
    then have "sf = fst (for_events P w ys s2)"
      by (simp add: sf_def for_events_append r1)
    then show ?thesis using for_events_posts_extend by simp
  next
    case (Throw err)
    then have "process_event P w e s1 = (s2, Throw err)" unfolding s2_def by (metis prod.collapse)
    then have "sf = s2" by (simp add: sf_def for_events_append r1)
    then show ?thesis by simp
  qed
  then obtain more where pf: "posts sf = posts s2 @ more" ..
  have "requests_for i th (drop (length (posts s)) (posts s2)) \<noteq> []"
  proof (cases "i \<in> reminded th s1")
    case True
    with j p2 show ?thesis by (simp add: requests_for_def)
  next
    case False
    from process_event_sends [OF m y [folded w_def] False [unfolded i_def]] d
    obtain p ps where "posts s2 = posts s1 @ p # ps" "p_event p = e" "p_label p = label th"
      unfolding s2_def by blast
    with j(1) not_malformed_id [OF m] show ?thesis by (simp add: requests_for_def i_def)
  qed
  with j(1) p2 pf have "requests_for i th (drop (length (posts s)) (posts sf)) \<noteq> []"
    by (auto simp: requests_for_def)
  moreover have "posts (fst (checkCalendarAndNotify P (Inr (xs @ e # ys)) now s)) = posts sf"
    by (cases "for_events P w (xs @ e # ys) s"; cases "snd (for_events P w (xs @ e # ys) s)")
       (simp_all add: checkCalendarAndNotify_def try_block_def sf_def w_def)
  ultimately show ?thesis by (simp add: i_def)
qed

text \<open>
  C2, as amended. The ledger entry of an (event id, threshold) pair is recorded only
  after \<open>sendSlackReminder\<close> has returned successfully. First: after any sequence
  of cycles that take their turns, started with empty sets, the id is in the reminded
  set of the threshold exactly when a request for the pair has been delivered; a pair
  whose deliveries all failed is therefore not in the set. Second: whenever a later
  cycle starts with the id not in the set, its fetch succeeds, the batch holds the
  event, not malformed and with the window date of the threshold, and the events
  before it in the batch complete their iteration without throwing, the cycle makes a
  request for the pair again (on a platform whose zones stay within a day of UTC, with
  a clock not before 1970).
\<close>

theorem ledger_records_deliveries:
  "(i \<in> reminded th (run_in_turn P cs initial)
      \<longleftrightarrow> delivered_for i th (posts (run_in_turn P cs initial)) \<noteq> [])
   \<and> (zone_ok (TIMEZONE P) \<and> zone_ok (localTZ P) \<and> 0 \<le> now
        \<and> snd (for_events P (window_at P now) xs s) = Normal
        \<and> \<not> malformed e
        \<and> eventYMD P (the (start e)) = Inr (window_date th (window_at P now))
        \<and> the (event_id e) \<notin> reminded th s
      \<longrightarrow> requests_for (the (event_id e)) th
            (drop (length (posts s))
               (posts (fst (checkCalendarAndNotify P (Inr (xs @ e # ys)) now s)))) \<noteq> [])"
  using run_ledger [OF initial_ledger, of i th P cs] cycle_requests [of P now xs s e th ys]
  by blast

text \<open>
  C2 as stated fails: the code sends first and marks afterwards. The first call of the
  Slack API fails; after that cycle the id is not in \<open>remindedDay\<close>, and the next
  cycle makes the request for the same pair again.
\<close>

theorem failed_delivery_is_retried:
  "''a'' \<notin> remindedDay (run_in_turn flaky_platform [(Inr [standup], june_9_noon)] initial)
   \<and> map p_ok (requests_for ''a'' OneDay
       (posts (run_in_turn flaky_platform [(Inr [standup], june_9_noon), (Inr [standup], june_9_noon)] initial)))
     = [False, True]"
  by code_simp

theorem ledger_records_deliveries_witness:
  "delivered_for ''a'' OneDay
       (posts (run_in_turn flaky_platform [(Inr [standup], june_9_noon)] initial)) = []
   \<and> ''a'' \<notin> reminded OneDay (run_in_turn flaky_platform [(Inr [standup], june_9_noon)] initial)
   \<and> zone_ok (TIMEZONE flaky_platform) \<and> zone_ok (localTZ flaky_platform) \<and> 0 \<le> june_9_noon
   \<and> snd (for_events flaky_platform (window_at flaky_platform june_9_noon) [no_start]
            (run_in_turn flaky_platform [(Inr [standup], june_9_noon)] initial)) = Normal
   \<and> \<not> malformed standup
   \<and> eventYMD flaky_platform (the (start standup))
       = Inr (window_date OneDay (window_at flaky_platform june_9_noon))
   \<and> requests_for ''a'' OneDay
       (drop (length (posts (run_in_turn flaky_platform [(Inr [standup], june_9_noon)] initial)))
          (posts (fst (checkCalendarAndNotify flaky_platform (Inr ([no_start] @ standup # [review]))
                         june_9_noon
                         (run_in_turn flaky_platform [(Inr [standup], june_9_noon)] initial))))) \<noteq> []"
proof -
  have a: "\<not> malformed standup" by code_simp
  have b: "eventYMD flaky_platform (the (start standup))
       = Inr (window_date OneDay (window_at flaky_platform june_9_noon))" by code_simp
  have c: "the (event_id standup)
       \<notin> reminded OneDay (run_in_turn flaky_platform [(Inr [standup], june_9_noon)] initial)"
    by code_simp
  have d: "the (event_id standup) = ''a''" by (simp add: standup_def)
  have e: "zone_ok (TIMEZONE flaky_platform)"
    by (simp add: flaky_platform_def sample_platform_def zone_ok_def America_Los_Angeles_def
        msPerDay_def)
  have f: "zone_ok (localTZ flaky_platform)"
    by (simp add: flaky_platform_def sample_platform_def zone_ok_def Etc_UTC_def msPerDay_def)
  have g: "0 \<le> june_9_noon" by (simp add: june_9_noon_def)
  have h: "snd (for_events flaky_platform (window_at flaky_platform june_9_noon) [no_start]
            (run_in_turn flaky_platform [(Inr [standup], june_9_noon)] initial)) = Normal"
    by code_simp
  from ledger_records_deliveries [of "''a''" OneDay flaky_platform "[(Inr [standup], june_9_noon)]"
         june_9_noon "[no_start]" "run_in_turn flaky_platform [(Inr [standup], june_9_noon)] initial"
         standup "[review]"] a b c d e f g h
  show ?thesis by simp
qed

subsection \<open>A failed delivery ends the loop\<close>

text \<open>
  C9. If the send for the event at some position of the batch fails in delivery, the
  loop ends there: the result does not depend on the events after it, the last request
  made is the failed one, the id of the event is not in the reminded set of its
  threshold, and the cycle logs the error and returns normally.
\<close>

theorem delivery_failure_aborts:
  assumes xs: "for_events P w xs s = (s1, Normal)"
    and e: "process_event P w e s1 = (s2, Throw DeliveryError)"
  shows "for_events P w (xs @ e # ys) s = (s2, Throw DeliveryError)
    \<and> (\<exists>ps p th. posts s2 = posts s1 @ ps @ [p] \<and> \<not> p_ok p \<and> p_event p = e
          \<and> p_label p = label th \<and> the (event_id e) \<notin> reminded th s2)
    \<and> (w = window_at P now \<longrightarrow>
         checkCalendarAndNotify P (Inr (xs @ e # ys)) now s
           = (s2\<lparr>logged := logged s2 @ [DeliveryError]\<rparr>, Normal))"
proof -
  have a: "for_events P w (xs @ e # ys) s = (s2, Throw DeliveryError)"
    by (simp add: for_events_append xs e)
  then have c: "w = window_at P now \<longrightarrow>
         checkCalendarAndNotify P (Inr (xs @ e # ys)) now s
           = (s2\<lparr>logged := logged s2 @ [DeliveryError]\<rparr>, Normal)"
    by (auto simp: checkCalendarAndNotify_def try_block_def)
  from e have m: "\<not> malformed e" by (auto simp: process_event_unfold)
  from e m obtain ymd where y: "eventYMD P (the (start e)) = Inr ymd"
    and pe: "and_then (remind OneDay P w e ymd s1) (remind OneWeek P w e ymd) = (s2, Throw DeliveryError)"
    by (cases "eventYMD P (the (start e))") (auto simp: process_event_unfold eventYMD_def split: if_splits option.splits)
  obtain s' c' where r: "remind OneDay P w e ymd s1 = (s', c')"
    by (cases "remind OneDay P w e ymd s1")
  have b: "\<exists>ps p th. posts s2 = posts s1 @ ps @ [p] \<and> \<not> p_ok p \<and> p_event p = e
          \<and> p_label p = label th \<and> the (event_id e) \<notin> reminded th s2"
  proof (cases c')
    case (Throw err)
    with pe r have "remind OneDay P w e ymd s1 = (s2, Throw DeliveryError)" by simp
    from remind_Throw_DeliveryError [OF this]
    obtain p where "posts s2 = posts s1 @ [] @ [p]" "\<not> p_ok p" "p_event p = e" "p_label p = label OneDay"
      "the (event_id e) \<notin> reminded OneDay s2" by auto
    then show ?thesis by blast
  next
    case Normal
    with pe r have w: "remind OneWeek P w e ymd s' = (s2, Throw DeliveryError)" by simp
    from remind_posts_extend [of OneDay P w e ymd s1] r obtain ps where ps: "posts s' = posts s1 @ ps"
      by auto
    from remind_Throw_DeliveryError [OF w]
    obtain p where "posts s2 = posts s' @ [p]" "\<not> p_ok p" "p_event p = e" "p_label p = label OneWeek"
      "the (event_id e) \<notin> reminded OneWeek s2" by auto
    with ps have "posts s2 = posts s1 @ ps @ [p] \<and> \<not> p_ok p \<and> p_event p = e
          \<and> p_label p = label OneWeek \<and> the (event_id e) \<notin> reminded OneWeek s2" by simp
    then show ?thesis by blast
  qed
  from a b c show ?thesis by blast
qed

theorem delivery_failure_aborts_witness:
  "for_events flaky_platform (window_at flaky_platform june_9_noon) [] initial = (initial, Normal)
   \<and> snd (process_event flaky_platform (window_at flaky_platform june_9_noon) standup initial)
       = Throw DeliveryError
   \<and> for_events flaky_platform (window_at flaky_platform june_9_noon) ([] @ standup # [review]) initial
       = (fst (process_event flaky_platform (window_at flaky_platform june_9_noon) standup initial),
          Throw DeliveryError)"
proof -
  have a: "for_events flaky_platform (window_at flaky_platform june_9_noon) [] initial = (initial, Normal)"
    by simp
  have b: "snd (process_event flaky_platform (window_at flaky_platform june_9_noon) standup initial)
       = Throw DeliveryError" by code_simp
  then have c: "process_event flaky_platform (window_at flaky_platform june_9_noon) standup initial
     = (fst (process_event flaky_platform (window_at flaky_platform june_9_noon) standup initial),
          Throw DeliveryError)"
    by (metis prod.collapse)
  from delivery_failure_aborts [OF a c, of "[review]"] a b show ?thesis by blast
qed

subsection \<open>The text of a request\<close>

lemma prettyStart_Inr:
  assumes "prettyStart P e = Inr pretty"
  shows "\<exists>st. start e = Some st
           \<and> (if truthy (date st) \<and> \<not> truthy (dateTime st) then date st = Some pretty
               else (\<exists>dt t. dateTime st = Some dt \<and> parseDate P dt = Some t
                       \<and> pretty = formatStart P (TIMEZONE P) t))"
proof -
  from assms obtain st where st: "start e = Some st"
    by (cases "start e") (simp_all add: prettyStart_def)
  show ?thesis
  proof (cases "truthy (date st) \<and> \<not> truthy (dateTime st)")
    case True
    then obtain D where "date st = Some D" by (cases "date st") simp_all
    with True assms st show ?thesis by (simp add: prettyStart_def isAllDay_def)
  next
    case False
    with assms st show ?thesis
      by (auto simp: prettyStart_def isAllDay_def new_Date_def split: option.splits)
  qed
qed

text \<open>
  C8. Every request that a cycle makes, from whatever state it starts, has this text:
  the alarm-clock line naming the label of the threshold; the title in asterisks,
  \<open>Untitled event\<close> when the summary is absent; the calendar line, which shows the
  \<open>date\<close> field as it is for an all-day event and the parsed \<open>dateTime\<close> formatted
  in \<open>TIMEZONE\<close> otherwise; then the description paragraph, which is there exactly
  when the event has a description that is not empty once every match of
  \<open><[^>]*>\<close> is removed and the rest is trimmed, and which shows that stripped and
  trimmed text, in which no substring matches the pattern; and the link line when
  \<open>htmlLink\<close> is present.
\<close>

theorem notification_shape:
  assumes "p \<in> set (drop (length (posts s))
                      (posts (fst (checkCalendarAndNotify P fetched now s))))"
  shows "\<exists>th st pretty para.
           p_label p = label th
         \<and> start (p_event p) = Some st
         \<and> (if truthy (date st) \<and> \<not> truthy (dateTime st) then date st = Some pretty
            else (\<exists>dt t. dateTime st = Some dt \<and> parseDate P dt = Some t
                    \<and> pretty = formatStart P (TIMEZONE P) t))
         \<and> (case description (p_event p) of
               None \<Rightarrow> para = []
             | Some d \<Rightarrow>
                 \<not> (\<exists>a g b. trim (strip_tags d) = a @ g @ b \<and> is_tag g)
                 \<and> para = (if trim (strip_tags d) = [] then []
                           else LF @ memo_emoji @ '' '' @ trim (strip_tags d) @ LF))
         \<and> p_text p =
             alarm_clock @ '' *Upcoming event in '' @ label th @ ''*'' @ LF
             @ ''*'' @ (if truthy (summary (p_event p)) then the (summary (p_event p))
                       else ''Untitled event'') @ ''*'' @ LF
             @ calendar_emoji @ '' '' @ pretty @ LF
             @ para
             @ (if truthy (htmlLink (p_event p))
                then link_emoji @ '' <'' @ the (htmlLink (p_event p)) @ ''|Open in Google Calendar>''
                else [])"
proof -
  define shaped where "shaped = (\<lambda>p :: post. \<exists>th st pretty.
           p_label p = label th
         \<and> start (p_event p) = Some st
         \<and> (if truthy (date st) \<and> \<not> truthy (dateTime st) then date st = Some pretty
            else (\<exists>dt t. dateTime st = Some dt \<and> parseDate P dt = Some t
                    \<and> pretty = formatStart P (TIMEZONE P) t))
         \<and> p_text p = message_text (label th) (p_event p) pretty)"
  define n where "n = length (posts s)"
  define I where "I = (\<lambda>s' :: state. n \<le> length (posts s') \<and> (\<forall>p\<in>set (drop n (posts s')). shaped p))"
  have new: "shaped \<lparr>p_event = e, p_label = label th, p_text = message_text (label th) e pretty, p_ok = b\<rparr>"
    if pr: "prettyStart P e = Inr pretty" for e th pretty b
  proof -
    from prettyStart_Inr [OF pr] obtain st where "start e = Some st"
      and "if truthy (date st) \<and> \<not> truthy (dateTime st) then date st = Some pretty
           else (\<exists>dt t. dateTime st = Some dt \<and> parseDate P dt = Some t
                   \<and> pretty = formatStart P (TIMEZONE P) t)"
      by blast
    then show ?thesis
      unfolding shaped_def by (intro exI [of _ th] exI [of _ st] exI [of _ pretty]) simp
  qed
  have "I (fst (checkCalendarAndNotify P fetched now s))"
  proof (rule cycle_lift [where I = I])
    fix e and s' :: state
    assume "I s'"
    then show "I (fst (process_event P (window_at P now) e s'))"
    proof (rule process_event_lift [rotated])
      fix th ymd and s'' :: state
      assume "I s''"
      then show "I (fst (remind th P (window_at P now) e ymd s''))"
        unfolding I_def by (auto simp: remind_unfold new split: sum.splits)
    qed
  next
    fix s' :: state and l
    assume "I s'"
    then show "I (s'\<lparr>logged := l\<rparr>)" by (simp add: I_def)
  next
    show "I s" by (simp add: I_def n_def)
  qed
  with assms have "shaped p" by (simp add: I_def n_def)
  then obtain th st pretty where l: "p_label p = label th" and st: "start (p_event p) = Some st"
    and pr: "if truthy (date st) \<and> \<not> truthy (dateTime st) then date st = Some pretty
            else (\<exists>dt t. dateTime st = Some dt \<and> parseDate P dt = Some t
                    \<and> pretty = formatStart P (TIMEZONE P) t)"
    and tx: "p_text p = message_text (label th) (p_event p) pretty"
    unfolding shaped_def by blast
  define para where "para = (case cleanDescription (description (p_event p)) of
          None \<Rightarrow> [] | Some t \<Rightarrow> LF @ memo_emoji @ '' '' @ t @ LF)"
  have pa: "case description (p_event p) of
               None \<Rightarrow> para = []
             | Some d \<Rightarrow>
                 \<not> (\<exists>a g b. trim (strip_tags d) = a @ g @ b \<and> is_tag g)
                 \<and> para = (if trim (strip_tags d) = [] then []
                           else LF @ memo_emoji @ '' '' @ trim (strip_tags d) @ LF)"
  proof (cases "description (p_event p)")
    case None
    then show ?thesis by (simp add: para_def cleanDescription_def)
  next
    case (Some d)
    have "\<not> (\<exists>a g b. trim (strip_tags d) = a @ g @ b \<and> is_tag g)"
      using trim_no_tag [OF strip_tags_no_tag, of d] has_tag_iff [of "trim (strip_tags d)"]
      by blast
    moreover have "para = (if trim (strip_tags d) = [] then []
                           else LF @ memo_emoji @ '' '' @ trim (strip_tags d) @ LF)"
      by (cases "d = []") (simp_all add: para_def cleanDescription_def Some Let_def trim_Nil)
    ultimately show ?thesis by (simp add: Some)
  qed
  have "p_text p =
             alarm_clock @ '' *Upcoming event in '' @ label th @ ''*'' @ LF
             @ ''*'' @ (if truthy (summary (p_event p)) then the (summary (p_event p))
                       else ''Untitled event'') @ ''*'' @ LF
             @ calendar_emoji @ '' '' @ pretty @ LF
             @ para
             @ (if truthy (htmlLink (p_event p))
                then link_emoji @ '' <'' @ the (htmlLink (p_event p)) @ ''|Open in Google Calendar>''
                else [])"
    unfolding tx para_def by (rule message_text_parts)
  with l st pr pa show ?thesis by blast
qed

theorem notification_shape_witness:
  "posts (fst (checkCalendarAndNotify sample_platform (Inr [standup, review]) june_9_noon initial)) ! 0
     \<in> set (drop (length (posts initial))
          (posts (fst (checkCalendarAndNotify sample_platform (Inr [standup, review]) june_9_noon initial))))
   \<and> p_text (posts (fst (checkCalendarAndNotify sample_platform (Inr [standup, review])
                          june_9_noon initial)) ! 0) =
       alarm_clock @ '' *Upcoming event in 1 day*'' @ LF
       @ ''*Standup*'' @ LF
       @ calendar_emoji @ '' 2026-06-10'' @ LF
       @ LF @ memo_emoji @ '' Bring notes'' @ LF
       @ link_emoji @ '' <https://cal/a|Open in Google Calendar>''
   \<and> posts (fst (checkCalendarAndNotify sample_platform (Inr [standup, review]) june_9_noon initial)) ! 1
     \<in> set (drop (length (posts initial))
          (posts (fst (checkCalendarAndNotify sample_platform (Inr [standup, review]) june_9_noon initial))))
   \<and> p_text (posts (fst (checkCalendarAndNotify sample_platform (Inr [standup, review])
                          june_9_noon initial)) ! 1) =
       alarm_clock @ '' *Upcoming event in 1 day*'' @ LF
       @ ''*Untitled event*'' @ LF
       @ calendar_emoji @ '' Jun 10, 2026, 3:30 PM'' @ LF"
proof -
  define X where "X = posts (fst (checkCalendarAndNotify sample_platform (Inr [standup, review])
                                    june_9_noon initial))"
  have a0: "X ! 0 \<in> set (drop (length (posts initial)) X)" unfolding X_def by code_simp
  have a1: "X ! 1 \<in> set (drop (length (posts initial)) X)" unfolding X_def by code_simp
  have e0: "p_event (X ! 0) = standup" and l0: "p_label (X ! 0) = ''1 day''"
    unfolding X_def by code_simp+
  have e1: "p_event (X ! 1) = review" and l1: "p_label (X ! 1) = ''1 day''"
    unfolding X_def by code_simp+
  define D where "D = the (description standup)"
  have ds: "description standup = Some D" by (simp add: D_def standup_def)
  have d0: "trim (strip_tags D) = ''Bring notes''" unfolding D_def by code_simp
  have f1: "formatStart sample_platform (TIMEZONE sample_platform) 1781130600000
              = ''Jun 10, 2026, 3:30 PM''" by code_simp
  have t0: "p_text (X ! 0) =
       alarm_clock @ '' *Upcoming event in 1 day*'' @ LF
       @ ''*Standup*'' @ LF
       @ calendar_emoji @ '' 2026-06-10'' @ LF
       @ LF @ memo_emoji @ '' Bring notes'' @ LF
       @ link_emoji @ '' <https://cal/a|Open in Google Calendar>''"
  proof -
    from notification_shape [OF a0 [unfolded X_def], folded X_def]
    obtain th st pretty para where l: "p_label (X ! 0) = label th"
      and st: "start (p_event (X ! 0)) = Some st"
      and pr: "if truthy (date st) \<and> \<not> truthy (dateTime st) then date st = Some pretty
            else (\<exists>dt t. dateTime st = Some dt \<and> parseDate sample_platform dt = Some t
                    \<and> pretty = formatStart sample_platform (TIMEZONE sample_platform) t)"
      and pa: "case description (p_event (X ! 0)) of
               None \<Rightarrow> para = []
             | Some d \<Rightarrow>
                 \<not> (\<exists>a g b. trim (strip_tags d) = a @ g @ b \<and> is_tag g)
                 \<and> para = (if trim (strip_tags d) = [] then []
                           else LF @ memo_emoji @ '' '' @ trim (strip_tags d) @ LF)"
      and tx: "p_text (X ! 0) =
             alarm_clock @ '' *Upcoming event in '' @ label th @ ''*'' @ LF
             @ ''*'' @ (if truthy (summary (p_event (X ! 0))) then the (summary (p_event (X ! 0)))
                       else ''Untitled event'') @ ''*'' @ LF
             @ calendar_emoji @ '' '' @ pretty @ LF
             @ para
             @ (if truthy (htmlLink (p_event (X ! 0)))
                then link_emoji @ '' <'' @ the (htmlLink (p_event (X ! 0))) @ ''|Open in Google Calendar>''
                else [])"
      by blast
    from st pr have "pretty = ''2026-06-10''" by (auto simp: e0 standup_def)
    moreover from l l0 have "label th = ''1 day''" by simp
    moreover from pa have "para = LF @ memo_emoji @ '' Bring notes'' @ LF"
      by (simp add: e0 ds d0)
    ultimately show ?thesis using tx by (simp add: e0 standup_def)
  qed
  have t1: "p_text (X ! 1) =
       alarm_clock @ '' *Upcoming event in 1 day*'' @ LF
       @ ''*Untitled event*'' @ LF
       @ calendar_emoji @ '' Jun 10, 2026, 3:30 PM'' @ LF"
  proof -
    from notification_shape [OF a1 [unfolded X_def], folded X_def]
    obtain th st pretty para where l: "p_label (X ! 1) = label th"
      and st: "start (p_event (X ! 1)) = Some st"
      and pr: "if truthy (date st) \<and> \<not> truthy (dateTime st) then date st = Some pretty
            else (\<exists>dt t. dateTime st = Some dt \<and> parseDate sample_platform dt = Some t
                    \<and> pretty = formatStart sample_platform (TIMEZONE sample_platform) t)"
      and pa: "case description (p_event (X ! 1)) of
               None \<Rightarrow> para = []
             | Some d \<Rightarrow>
                 \<not> (\<exists>a g b. trim (strip_tags d) = a @ g @ b \<and> is_tag g)
                 \<and> para = (if trim (strip_tags d) = [] then []
                           else LF @ memo_emoji @ '' '' @ trim (strip_tags d) @ LF)"
      and tx: "p_text (X ! 1) =
             alarm_clock @ '' *Upcoming event in '' @ label th @ ''*'' @ LF
             @ ''*'' @ (if truthy (summary (p_event (X ! 1))) then the (summary (p_event (X ! 1)))
                       else ''Untitled event'') @ ''*'' @ LF
             @ calendar_emoji @ '' '' @ pretty @ LF
             @ para
             @ (if truthy (htmlLink (p_event (X ! 1)))
                then link_emoji @ '' <'' @ the (htmlLink (p_event (X ! 1))) @ ''|Open in Google Calendar>''
                else [])"
      by blast
    from st have st': "st = \<lparr>date = None, dateTime = Some ''2026-06-10T15:30:00-07:00''\<rparr>"
      unfolding e1 by (simp add: review_def)
    from pr have "pretty = formatStart sample_platform (TIMEZONE sample_platform) 1781130600000"
      unfolding st' by (simp add: sample_platform_def sample_parse_def)
    with f1 have "pretty = ''Jun 10, 2026, 3:30 PM''" by simp
    moreover from l l1 have "label th = ''1 day''" by simp
    moreover from pa [unfolded e1] have "para = []" by (simp add: review_def)
    ultimately show ?thesis using tx [unfolded e1] by (simp add: review_def)
  qed
  from a0 a1 t0 t1 show ?thesis unfolding X_def by blast
qed

end
